theory Spec2Isabelle
  imports
    Complex_Main
    "HOL-Library.AList"
    "HOL-Library.List_Lexorder"
    "HOL-Library.Product_Lexorder"
begin

section \<open>Python strings\<close>

text \<open>
  A Python \<^verbatim>\<open>str\<close> is a sequence of Unicode code points. A code point is modelled by its
  number, so that the characters Python treats as white space or as line boundaries beyond
  Latin-1 (U+2028, U+3000, ...) are part of the model. Python compares strings
  lexicographically by code point, a proper prefix being smaller: this is the order of
  \<open>HOL-Library.List_Lexorder\<close> on \<^typ>\<open>nat list\<close>.
\<close>

type_synonym pystr = "nat list"

definition str :: "string \<Rightarrow> pystr" where
  "str s = map of_char s"

text \<open>The code points for which \<^verbatim>\<open>str.isspace\<close> holds (CPython's \<^verbatim>\<open>_PyUnicode_IsWhitespace\<close>).\<close>

definition is_space :: "nat \<Rightarrow> bool" where
  "is_space c \<longleftrightarrow>
     (0x09 \<le> c \<and> c \<le> 0x0D) \<or> (0x1C \<le> c \<and> c \<le> 0x1F) \<or> c = 0x20 \<or> c = 0x85 \<or> c = 0xA0 \<or>
     c = 0x1680 \<or> (0x2000 \<le> c \<and> c \<le> 0x200A) \<or> c = 0x2028 \<or> c = 0x2029 \<or> c = 0x202F \<or>
     c = 0x205F \<or> c = 0x3000"

text \<open>The line boundaries of \<^verbatim>\<open>str.splitlines\<close> (CPython's \<^verbatim>\<open>_PyUnicode_IsLinebreak\<close>).\<close>

definition is_linebreak :: "nat \<Rightarrow> bool" where
  "is_linebreak c \<longleftrightarrow>
     c = 0x0A \<or> c = 0x0B \<or> c = 0x0C \<or> c = 0x0D \<or> c = 0x1C \<or> c = 0x1D \<or> c = 0x1E \<or>
     c = 0x85 \<or> c = 0x2028 \<or> c = 0x2029"

text \<open>\<^verbatim>\<open>s.strip()\<close>: leading and trailing white space removed.\<close>

definition strip :: "pystr \<Rightarrow> pystr" where
  "strip s = rev (dropWhile is_space (rev (dropWhile is_space s)))"

text \<open>\<^verbatim>\<open>s.lstrip(' ')\<close>: leading space characters (U+0020 only) removed.\<close>

definition lstrip_space :: "pystr \<Rightarrow> pystr" where
  "lstrip_space s = dropWhile (\<lambda>c. c = 0x20) s"

text \<open>
  The line terminator at the head of what follows a line: one line-break character, or the
  two characters CR LF.
\<close>

fun skip_linebreak :: "pystr \<Rightarrow> pystr" where
  "skip_linebreak [] = []"
| "skip_linebreak [c] = []"
| "skip_linebreak (c # d # r) = (if c = 0x0D \<and> d = 0x0A then r else d # r)"

lemma length_skip_linebreak: "length (skip_linebreak s) \<le> length s"
  by (induction s rule: skip_linebreak.induct) auto

lemma length_skip_linebreak_less: "s \<noteq> [] \<Longrightarrow> length (skip_linebreak s) < length s"
  by (induction s rule: skip_linebreak.induct) auto

text \<open>
  \<^verbatim>\<open>s.splitlines()\<close>, as CPython's loop: while characters remain, scan to the next line
  boundary, emit the line without its terminator, and go on after the terminator. The
  empty string has no line, and a terminator at the very end opens no further line.
\<close>

function splitlines :: "pystr \<Rightarrow> pystr list" where
  "splitlines s =
     (if s = [] then []
      else takeWhile (\<lambda>c. \<not> is_linebreak c) s
             # splitlines (skip_linebreak (dropWhile (\<lambda>c. \<not> is_linebreak c) s)))"
  by pat_completeness auto
termination
proof (relation "measure length")
  show "wf (measure length)" by simp
next
  fix s :: pystr
  assume ne: "s \<noteq> []"
  let ?r = "dropWhile (\<lambda>c. \<not> is_linebreak c) s"
  show "(skip_linebreak ?r, s) \<in> measure length"
  proof (cases "?r = []")
    case True
    with ne show ?thesis by (cases s) auto
  next
    case False
    then have "length (skip_linebreak ?r) < length ?r"
      by (rule length_skip_linebreak_less)
    moreover have "length ?r \<le> length s"
      by (rule length_dropWhile_le)
    ultimately show ?thesis by simp
  qed
qed

declare splitlines.simps [simp del]

text \<open>\<^verbatim>\<open>s.split()\<close>: the maximal runs of characters that are not white space.\<close>

function split_ws :: "pystr \<Rightarrow> pystr list" where
  "split_ws s =
     (let t = dropWhile is_space s in
      if t = [] then []
      else takeWhile (\<lambda>c. \<not> is_space c) t # split_ws (dropWhile (\<lambda>c. \<not> is_space c) t))"
  by pat_completeness auto
termination
proof (relation "measure length")
  show "wf (measure length)" by simp
next
  fix s t :: pystr
  assume t: "t = dropWhile is_space s" and ne: "t \<noteq> []"
  from ne obtain c cs where tc: "t = c # cs" by (cases t) auto
  with t have "\<not> is_space c"
    by (metis hd_dropWhile list.sel(1) ne)
  with tc have "length (dropWhile (\<lambda>c. \<not> is_space c) t) \<le> length cs"
    by (simp add: length_dropWhile_le)
  moreover have "length t \<le> length s"
    using t by (simp add: length_dropWhile_le)
  ultimately show "(dropWhile (\<lambda>c. \<not> is_space c) t, s) \<in> measure length"
    using tc by simp
qed

declare split_ws.simps [simp del]

section \<open>The external tools\<close>

text \<open>
  \<^verbatim>\<open>run(cmd).stdout\<close> is the only thing the program reads from a command. The shell is
  therefore a function from the command to the text it prints; a command is identified by
  the values the program puts into its command line:
  \<^item> \<open>GitLsFiles src_root file_glob\<close>: \<^verbatim>\<open>git -C src_root ls-files | grep -E 'file_glob' || true\<close>;
  \<^item> \<open>FindFiles src_root\<close>: \<^verbatim>\<open>find src_root -type f -name '*.c' -o -name '*.h'\<close>;
  \<^item> \<open>Ctags files\<close>: \<^verbatim>\<open>ctags -x --c-kinds=f files\<close>;
  \<^item> \<open>Cflow func src_root\<close>: \<^verbatim>\<open>cflow --omit-arguments --main=func $(git -C src_root ls-files ...)\<close>,
    run in \<open>src_root\<close>.
\<close>

datatype cmd =
    GitLsFiles pystr pystr
  | FindFiles pystr
  | Ctags "pystr list"
  | Cflow pystr pystr

type_synonym shell = "cmd \<Rightarrow> pystr"

section \<open>The depth measurer\<close>

text \<open>Lines 56 and 57: the leading spaces of a line, two of them being one level.\<close>

definition line_depth :: "pystr \<Rightarrow> nat" where
  "line_depth line =
     (let leading = length line - length (lstrip_space line) in leading div 2)"

text \<open>The body of the loop of lines 52 to 59, on the pair that \<^verbatim>\<open>enumerate(..., 1)\<close> yields.\<close>

definition depth_step :: "nat \<times> pystr \<Rightarrow> nat \<Rightarrow> nat" where
  "depth_step p maxdepth =
     (case p of (i, line) \<Rightarrow>
        if i = 1 then maxdepth
        else let depth = line_depth line in
             if depth > maxdepth then depth else maxdepth)"

text \<open>\<^verbatim>\<open>max_call_depth_for\<close>; \<open>None\<close> is Python's \<^verbatim>\<open>None\<close>.\<close>

definition max_call_depth_for :: "shell \<Rightarrow> pystr \<Rightarrow> pystr \<Rightarrow> nat option" where
  "max_call_depth_for run func src_root =
     (let text = run (Cflow func src_root) in
      if strip text = [] then None
      else Some (fold depth_step (enumerate 1 (splitlines text)) 0))"

section \<open>The function enumerator\<close>

text \<open>The body of the loop of lines 35 to 39: the first token of a line that has one.\<close>

definition collect_name :: "pystr \<Rightarrow> pystr list \<Rightarrow> pystr list" where
  "collect_name line funcs =
     (case split_ws line of [] \<Rightarrow> funcs | p # ps \<Rightarrow> funcs @ [p])"

text \<open>
  Lines 22 to 27: the files that git lists and the pattern keeps or, when there are none,
  the files that \<^verbatim>\<open>find\<close> lists.
\<close>

definition discover_files :: "shell \<Rightarrow> pystr \<Rightarrow> pystr \<Rightarrow> pystr list" where
  "discover_files run src_root file_glob =
     (let files = splitlines (strip (run (GitLsFiles src_root file_glob)))
      in if files = [] then splitlines (strip (run (FindFiles src_root))) else files)"

text \<open>
  \<^verbatim>\<open>list_functions\<close>. \<^verbatim>\<open>sorted(set(funcs))\<close> is the ascending list of the distinct names;
  the order in which Python iterates over the set does not show in it.
\<close>

definition list_functions :: "shell \<Rightarrow> pystr \<Rightarrow> pystr \<Rightarrow> pystr list" where
  "list_functions run src_root file_glob =
     (let files = discover_files run src_root file_glob
      in if files = [] then []
         else let out = run (Ctags files);
                  funcs = fold collect_name (splitlines out) []
              in sort (remdups funcs))"

section \<open>Measuring every function\<close>

text \<open>
  The loop of lines 77 to 81. The dictionary \<^verbatim>\<open>depth_map\<close> is an association list in
  insertion order, as a Python dictionary keeps its items: assigning to a key that is
  present replaces its value in place, a new key goes to the end.
\<close>

definition measure_step ::
  "shell \<Rightarrow> pystr \<Rightarrow> pystr \<Rightarrow> nat list \<times> (pystr \<times> nat) list \<Rightarrow> nat list \<times> (pystr \<times> nat) list" where
  "measure_step run src_root f acc =
     (case acc of (depths, depth_map) \<Rightarrow>
        (case max_call_depth_for run f src_root of
           None \<Rightarrow> (depths, depth_map)
         | Some d \<Rightarrow> (depths @ [d], AList.update f d depth_map)))"

definition measure_all :: "shell \<Rightarrow> pystr \<Rightarrow> pystr list \<Rightarrow> nat list \<times> (pystr \<times> nat) list" where
  "measure_all run src_root funcs = fold (measure_step run src_root) funcs ([], [])"

section \<open>Order statistics\<close>

datatype py_error = IndexError | ZeroDivisionError

definition and_then :: "py_error + 'a \<Rightarrow> ('a \<Rightarrow> py_error + 'b) \<Rightarrow> py_error + 'b" where
  "and_then r f = (case r of Inl e \<Rightarrow> Inl e | Inr v \<Rightarrow> f v)"

text \<open>\<^verbatim>\<open>xs[i]\<close> for an index that is not negative.\<close>

definition getitem :: "'a list \<Rightarrow> nat \<Rightarrow> py_error + 'a" where
  "getitem xs i = (if i < length xs then Inr (xs ! i) else Inl IndexError)"

text \<open>
  \<^verbatim>\<open>bisect.bisect_right(a, x)\<close> of the standard library:
  \<^verbatim>\<open>
  lo, hi = 0, len(a)
  while lo < hi:
      mid = (lo + hi) // 2
      if x < a[mid]: hi = mid
      else: lo = mid + 1
  return lo
  \<close>
\<close>

function bisect_loop :: "nat list \<Rightarrow> nat \<Rightarrow> nat \<Rightarrow> nat \<Rightarrow> py_error + nat" where
  "bisect_loop a x lo hi =
     (if lo < hi then
        (let mid = (lo + hi) div 2 in
         case getitem a mid of
           Inl e \<Rightarrow> Inl e
         | Inr y \<Rightarrow> if x < y then bisect_loop a x lo mid else bisect_loop a x (mid + 1) hi)
      else Inr lo)"
  by pat_completeness auto
termination
  by (relation "measure (\<lambda>(a, x, lo, hi). hi - lo)") auto

declare bisect_loop.simps [simp del]

definition bisect_right :: "nat list \<Rightarrow> nat \<Rightarrow> py_error + nat" where
  "bisect_right a x = bisect_loop a x 0 (length a)"

subsection \<open>Double-precision arithmetic\<close>

text \<open>
  A Python \<^verbatim>\<open>float\<close> is an IEEE 754 double. A finite double is modelled by the rational
  number it denotes, and an operation by the exact result rounded to the nearest double,
  ties to even, as the hardware rounds. The exponent range of doubles is not modelled: no
  overflow and no subnormal numbers, which the values of line 102 reach only for lists of
  more than \<open>2^1000\<close> elements.
\<close>

text \<open>Rounding a rational number to the nearest integer, a tie going to the even one.\<close>

definition round_half_even :: "rat \<Rightarrow> int" where
  "round_half_even x =
     (let f = \<lfloor>x\<rfloor>; d = x - of_int f in
      if d < 1 / 2 then f
      else if 1 / 2 < d then f + 1
      else if even f then f else f + 1)"

text \<open>The two facts by which the scaling below ends.\<close>

lemma mantissa_up_decreases:
  fixes q :: rat
  assumes "0 < q" and "q < 2 ^ 52"
  shows "2 * nat \<lceil>2 ^ 52 / (2 * q)\<rceil> + nat \<lfloor>2 * q / 2 ^ 52\<rfloor>
           < 2 * nat \<lceil>2 ^ 52 / q\<rceil> + nat \<lfloor>q / 2 ^ 52\<rfloor>"
proof -
  define r :: rat where "r = 2 ^ 52 / q"
  from assms have r1: "1 < r" by (simp add: r_def)
  have half: "2 ^ 52 / (2 * q) = r / 2" by (simp add: r_def)
  have "\<lceil>r / 2\<rceil> + 1 \<le> \<lceil>r\<rceil>"
  proof -
    have "of_int \<lceil>r / 2\<rceil> < r / 2 + 1" using ceiling_correct [of "r / 2"] by simp
    show ?thesis
    proof (cases "r \<le> 2")
      case True
      with r1 have "\<lceil>r\<rceil> = 2" by (simp add: ceiling_eq_iff)
      moreover from True r1 have "\<lceil>r / 2\<rceil> = 1" by (simp add: ceiling_eq_iff)
      ultimately show ?thesis by simp
    next
      case False
      then have "r / 2 + 1 < r" by simp
      with \<open>of_int \<lceil>r / 2\<rceil> < r / 2 + 1\<close> have "of_int \<lceil>r / 2\<rceil> < r" by simp
      then have "\<lceil>r / 2\<rceil> < \<lceil>r\<rceil>" by (simp add: less_ceiling_iff)
      then show ?thesis by simp
    qed
  qed
  moreover have "0 < \<lceil>r / 2\<rceil>" using r1 by (simp add: ceiling_less_iff)
  ultimately have c: "nat \<lceil>r / 2\<rceil> + 1 \<le> nat \<lceil>r\<rceil>" by linarith
  define y :: rat where "y = 2 * q / 2 ^ 52"
  from assms have "y < 2" by (simp add: y_def)
  then have "\<lfloor>y\<rfloor> \<le> 1" by linarith
  then have "nat \<lfloor>y\<rfloor> \<le> 1" by linarith
  then have f: "nat \<lfloor>2 * q / 2 ^ 52\<rfloor> \<le> 1" by (simp only: y_def)
  from c f show ?thesis unfolding half r_def [symmetric] by linarith
qed

lemma mantissa_down_decreases:
  fixes q :: rat
  assumes "2 ^ 53 \<le> q"
  shows "2 * nat \<lceil>2 ^ 52 / (q / 2)\<rceil> + nat \<lfloor>q / 2 / 2 ^ 52\<rfloor>
           < 2 * nat \<lceil>2 ^ 52 / q\<rceil> + nat \<lfloor>q / 2 ^ 52\<rfloor>"
proof -
  define x :: rat where "x = q / 2 ^ 52"
  from assms have x2: "2 \<le> x" by (simp add: x_def le_divide_eq)
  from assms have q0: "0 < q" by (rule less_le_trans [rotated]) simp
  have "0 < 2 ^ 52 / q" "2 ^ 52 / q \<le> 1" using q0 assms by simp_all
  then have c1: "\<lceil>2 ^ 52 / q\<rceil> = 1" by (simp add: ceiling_eq_iff)
  have "0 < 2 ^ 52 / (q / 2)" "2 ^ 52 / (q / 2) \<le> 1" using q0 assms by simp_all
  then have c2: "\<lceil>2 ^ 52 / (q / 2)\<rceil> = 1" by (simp add: ceiling_eq_iff)
  have hx: "q / 2 / 2 ^ 52 = x / 2" by (simp add: x_def)
  have "of_int \<lfloor>x / 2\<rfloor> \<le> x / 2" by (rule of_int_floor_le)
  also have "\<dots> < x - 1 + 1 / 2" using x2 by simp
  finally have "of_int \<lfloor>x / 2\<rfloor> < x" using x2 by simp
  moreover have "x < of_int \<lfloor>x\<rfloor> + 1" by linarith
  ultimately have "of_int \<lfloor>x / 2\<rfloor> < (of_int \<lfloor>x\<rfloor> + 1 :: rat)" by simp
  then have "\<lfloor>x / 2\<rfloor> < \<lfloor>x\<rfloor> + 1" by (metis of_int_1 of_int_add of_int_less_iff)
  moreover have "\<lfloor>x / 2\<rfloor> \<noteq> \<lfloor>x\<rfloor>"
  proof
    assume e: "\<lfloor>x / 2\<rfloor> = \<lfloor>x\<rfloor>"
    have "x - 1 < of_int \<lfloor>x\<rfloor>" by linarith
    with e have "x - 1 < of_int \<lfloor>x / 2\<rfloor>" by simp
    also have "\<dots> \<le> x / 2" by (rule of_int_floor_le)
    finally show False using x2 by simp
  qed
  moreover have "0 < \<lfloor>x\<rfloor>" using x2 by (simp add: less_floor_iff)
  ultimately have "nat \<lfloor>x / 2\<rfloor> < nat \<lfloor>x\<rfloor>" by linarith
  then show ?thesis unfolding c1 c2 hx x_def [symmetric] by simp
qed

text \<open>
  The double nearest to a positive rational number: the number is scaled by powers of 2
  into the range from \<open>2^52\<close> to \<open>2^53\<close>, where the doubles are the integers, rounded there,
  and scaled back.
\<close>

function round_mantissa :: "rat \<Rightarrow> rat" where
  "round_mantissa q =
     (if q \<le> 0 then 0
      else if q < 2 ^ 52 then round_mantissa (2 * q) / 2
      else if 2 ^ 53 \<le> q then 2 * round_mantissa (q / 2)
      else of_int (round_half_even q))"
  by pat_completeness auto
termination
proof (relation "measure (\<lambda>q. 2 * nat \<lceil>2 ^ 52 / q\<rceil> + nat \<lfloor>q / 2 ^ 52\<rfloor>)")
  show "wf (measure (\<lambda>q::rat. 2 * nat \<lceil>2 ^ 52 / q\<rceil> + nat \<lfloor>q / 2 ^ 52\<rfloor>))" by simp
next
  fix q :: rat
  assume "\<not> q \<le> 0" and "q < 2 ^ 52"
  then show "(2 * q, q) \<in> measure (\<lambda>q. 2 * nat \<lceil>2 ^ 52 / q\<rceil> + nat \<lfloor>q / 2 ^ 52\<rfloor>)"
    using mantissa_up_decreases [of q] by simp
next
  fix q :: rat
  assume "\<not> q \<le> 0" and "\<not> q < 2 ^ 52" and "2 ^ 53 \<le> q"
  then show "(q / 2, q) \<in> measure (\<lambda>q. 2 * nat \<lceil>2 ^ 52 / q\<rceil> + nat \<lfloor>q / 2 ^ 52\<rfloor>)"
    using mantissa_down_decreases [of q] by simp
qed

declare round_mantissa.simps [simp del]

text \<open>Rounding is symmetric about 0.\<close>

definition round_double :: "rat \<Rightarrow> rat" where
  "round_double q = (if q < 0 then - round_mantissa (- q) else round_mantissa q)"


text \<open>
  The conversion of an \<^verbatim>\<open>int\<close> that is not negative to \<^verbatim>\<open>float\<close>, and the product and the
  difference of two floats: the exact result, rounded.
\<close>

definition float_of_nat :: "nat \<Rightarrow> rat" where
  "float_of_nat n = round_double (of_nat n)"

definition fmul :: "rat \<Rightarrow> rat \<Rightarrow> rat" where
  "fmul a b = round_double (a * b)"

definition fsub :: "rat \<Rightarrow> rat \<Rightarrow> rat" where
  "fsub a b = round_double (a - b)"

text \<open>The quotient of two floats; dividing by zero raises.\<close>

definition fdiv :: "rat \<Rightarrow> rat \<Rightarrow> py_error + rat" where
  "fdiv a b = (if b = 0 then Inl ZeroDivisionError else Inr (round_double (a / b)))"

subsection \<open>Rank, percentile, quartiles\<close>

text \<open>
  Line 102, \<^verbatim>\<open>100.0 * rank / len(depths)\<close>: the two integers are converted to floats, the
  product is rounded, and so is the quotient.
\<close>

definition percentile :: "nat \<Rightarrow> nat \<Rightarrow> py_error + rat" where
  "percentile rank n = fdiv (fmul 100 (float_of_nat rank)) (float_of_nat n)"

text \<open>The value of line 102 when the division does not raise.\<close>

definition percentile_value :: "nat \<Rightarrow> nat \<Rightarrow> rat" where
  "percentile_value rank n = round_double (fmul 100 (float_of_nat rank) / float_of_nat n)"

text \<open>
  Lines 112 to 114, \<^verbatim>\<open>int(0.25*n)\<close>, \<^verbatim>\<open>int(0.50*n)\<close> and \<^verbatim>\<open>int(0.75*n)\<close>. The three factors
  are \<open>k/4\<close> for \<open>k = 1, 2, 3\<close>, binary fractions, so the product with a list length is exact
  in double precision (for every length below \<open>2^51\<close>), and \<^verbatim>\<open>int\<close> truncates it.
\<close>

definition quartile_index :: "nat \<Rightarrow> nat \<Rightarrow> nat" where
  "quartile_index k n = (k * n) div 4"

datatype classification = Deep | Shallow | MidRange

text \<open>Lines 116 to 121, in the order of the source's \<^verbatim>\<open>if\<close>, \<^verbatim>\<open>elif\<close>, \<^verbatim>\<open>else\<close>.\<close>

definition classify :: "nat \<Rightarrow> nat \<Rightarrow> nat \<Rightarrow> classification" where
  "classify td q1 q3 =
     (if td \<ge> q3 then Deep
      else if td \<le> q1 then Shallow
      else MidRange)"

record stats =
  rank :: nat
  pct :: rat
  q1 :: nat
  q2 :: nat
  q3 :: nat
  cls :: classification

text \<open>What lines 101 to 121 compute from the sorted depth list and the target's depth.\<close>

definition compute_stats :: "nat list \<Rightarrow> nat \<Rightarrow> py_error + stats" where
  "compute_stats depths td =
     and_then (bisect_right depths td) (\<lambda>r.
     and_then (percentile r (length depths)) (\<lambda>p.
     and_then (getitem depths (quartile_index 1 (length depths))) (\<lambda>a.
     and_then (getitem depths (quartile_index 2 (length depths))) (\<lambda>b.
     and_then (getitem depths (quartile_index 3 (length depths))) (\<lambda>c.
     Inr \<lparr>rank = r, pct = p, q1 = a, q2 = b, q3 = c, cls = classify td a c\<rparr>)))))"

section \<open>The top-20 list\<close>

text \<open>The sort key of lines 93 and 125, \<^verbatim>\<open>lambda x: (-x[1], x[0])\<close>, on an item (name, depth).\<close>

definition top_key :: "pystr \<times> nat \<Rightarrow> int \<times> pystr" where
  "top_key x = (- int (snd x), fst x)"

text \<open>
  \<^verbatim>\<open>sorted(depth_map.items(), key=...)[:20]\<close>. Python's \<^verbatim>\<open>sorted\<close> is stable, as
  \<^const>\<open>sort_key\<close> is.
\<close>

definition top20 :: "(pystr \<times> nat) list \<Rightarrow> (pystr \<times> nat) list" where
  "top20 depth_map = take 20 (sort_key top_key depth_map)"

section \<open>The program\<close>

text \<open>
  What the program prints, one constructor for each \<^verbatim>\<open>print\<close> of the source, with the values
  the line is formatted from. \<open>PositionLine\<close> holds the floats \<^verbatim>\<open>100-pct\<close> and \<^verbatim>\<open>pct\<close>, which the
  source prints rounded to one decimal.
\<close>

datatype msg =
    Usage
  | NoFunctions
  | NoDepths
  | TargetMissing pystr
  | FallbackHeader
  | TopEntry nat pystr
  | ResultHeader
  | TargetLine pystr
  | DepthLine nat
  | PositionLine rat rat
  | CountLine nat
  | BlankLine
  | QuartileLine nat nat nat
  | ClassLine classification
  | TopHeader

definition print_top :: "(pystr \<times> nat) list \<Rightarrow> msg list" where
  "print_top depth_map = map (\<lambda>(name, d). TopEntry d name) (top20 depth_map)"

definition print_summary :: "pystr \<Rightarrow> nat \<Rightarrow> nat list \<Rightarrow> stats \<Rightarrow> msg list" where
  "print_summary target td depths s =
     [ResultHeader, TargetLine target, DepthLine td, PositionLine (fsub 100 (pct s)) (pct s),
      CountLine (length depths), BlankLine, QuartileLine (q1 s) (q2 s) (q3 s),
      ClassLine (cls s)]"

text \<open>The default of the third argument, the regular expression \<^verbatim>\<open>\.c$|\.h$\<close>.\<close>

definition default_glob :: pystr where
  "default_glob = [0x5C, 0x2E, 0x63, 0x24, 0x7C, 0x5C, 0x2E, 0x68, 0x24]"

text \<open>Lines 66 to 68: the arguments and their defaults.\<close>

definition arg_target :: "pystr list \<Rightarrow> pystr" where
  "arg_target argv = argv ! 1"

definition arg_src_root :: "pystr list \<Rightarrow> pystr" where
  "arg_src_root argv = (if length argv \<ge> 3 then argv ! 2 else str ''.'')"

definition arg_file_glob :: "pystr list \<Rightarrow> pystr" where
  "arg_file_glob argv = (if length argv \<ge> 4 then argv ! 3 else default_glob)"

text \<open>
  \<^verbatim>\<open>main\<close>, from \<^verbatim>\<open>sys.argv\<close> and the shell to what is printed and the exit code;
  \<^verbatim>\<open>sys.exit(n)\<close> ends the run with code \<open>n\<close>, and reaching the end of \<^verbatim>\<open>main\<close> is code 0.
  \<open>Inl\<close> is an exception that nothing catches. \<open>arg_target\<close> is read only when
  \<^verbatim>\<open>sys.argv\<close> has two elements or more.
\<close>

definition main :: "shell \<Rightarrow> pystr list \<Rightarrow> py_error + (msg list \<times> nat)" where
  "main run argv =
     (if length argv < 2 then Inr ([Usage], 1)
      else
        let target = arg_target argv;
            src_root = arg_src_root argv;
            file_glob = arg_file_glob argv;
            funcs = list_functions run src_root file_glob
        in if funcs = [] then Inr ([NoFunctions], 2)
           else
             (case measure_all run src_root funcs of (depths, depth_map) \<Rightarrow>
                if depths = [] then Inr ([NoDepths], 3)
                else
                  let depths = sort depths in
                  (case map_of depth_map target of
                     None \<Rightarrow>
                       Inr ([TargetMissing target, FallbackHeader] @ print_top depth_map, 4)
                   | Some td \<Rightarrow>
                       and_then (compute_stats depths td) (\<lambda>s.
                         Inr (print_summary target td depths s @ [TopHeader]
                                @ print_top depth_map, 0)))))"

section \<open>The specification's notions\<close>

text \<open>The count of leading space characters of a line, and the depth the specification gives it.\<close>

definition leading_spaces :: "pystr \<Rightarrow> nat" where
  "leading_spaces line = length (takeWhile (\<lambda>c. c = 0x20) line)"

definition spec_depth :: "pystr \<Rightarrow> nat" where
  "spec_depth line = leading_spaces line div 2"

text \<open>
  The maximum depth over the lines after the first, 0 when there is no such line.
\<close>

definition spec_max_depth :: "pystr \<Rightarrow> nat" where
  "spec_max_depth text = Max (insert 0 (spec_depth ` set (drop 1 (splitlines text))))"

text \<open>A text that is empty or consists of white space only.\<close>

definition whitespace_only :: "pystr \<Rightarrow> bool" where
  "whitespace_only text = list_all is_space text"

text \<open>The first white-space-delimited token of a line, empty when the line has none.\<close>

definition first_token :: "pystr \<Rightarrow> pystr" where
  "first_token line = takeWhile (\<lambda>c. \<not> is_space c) (dropWhile is_space line)"

text \<open>The number of measured depths that are at most \<open>td\<close>.\<close>

definition count_le :: "nat list \<Rightarrow> nat \<Rightarrow> nat" where
  "count_le depths td = length (filter (\<lambda>d. d \<le> td) depths)"

text \<open>The (name, depth) pairs of the top-20 lines among what was printed, in order.\<close>

fun top_entries :: "msg list \<Rightarrow> (pystr \<times> nat) list" where
  "top_entries [] = []"
| "top_entries (TopEntry d name # ms) = (name, d) # top_entries ms"
| "top_entries (m # ms) = top_entries ms"

text \<open>
  The order of the top-20 list on two items: deeper first and, at equal depth, the smaller
  name first.
\<close>

definition top_before :: "pystr \<times> nat \<Rightarrow> pystr \<times> nat \<Rightarrow> bool" where
  "top_before x y \<longleftrightarrow> snd x > snd y \<or> (snd x = snd y \<and> fst x < fst y)"

section \<open>Example runs\<close>

text \<open>
  A shell over one tracked file with the functions \<^verbatim>\<open>f\<close>, \<^verbatim>\<open>g\<close> and \<^verbatim>\<open>h\<close>: the call tree of
  \<^verbatim>\<open>f\<close> has two levels below the root, that of \<^verbatim>\<open>g\<close> is its root line alone, and
  \<^verbatim>\<open>cflow\<close> prints nothing for \<^verbatim>\<open>h\<close>. \<^verbatim>\<open>ctags\<close> lists \<^verbatim>\<open>g\<close> twice.
\<close>

definition demo_shell :: shell where
  "demo_shell c =
     (case c of
        GitLsFiles r g \<Rightarrow> str ''a.c''
      | FindFiles r \<Rightarrow> []
      | Ctags fs \<Rightarrow> str ''g 1\<newline>f 2\<newline>g 3\<newline>h 4\<newline>''
      | Cflow f r \<Rightarrow>
          if f = str ''f'' then str ''f\<newline>  g\<newline>    k\<newline>''
          else if f = str ''g'' then str ''g\<newline>''
          else [])"

text \<open>A shell whose commands print nothing.\<close>

definition silent_shell :: shell where
  "silent_shell c = []"

text \<open>A shell that finds the function \<^verbatim>\<open>f\<close>, and where \<^verbatim>\<open>cflow\<close> prints nothing.\<close>

definition treeless_shell :: shell where
  "treeless_shell c =
     (case c of
        GitLsFiles r g \<Rightarrow> str ''a.c''
      | FindFiles r \<Rightarrow> []
      | Ctags fs \<Rightarrow> str ''f 1''
      | Cflow f r \<Rightarrow> [])"

section \<open>Verification\<close>

subsection \<open>Strings\<close>

lemma splitlines_Nil: "splitlines [] = []"
  by (simp add: splitlines.simps)

lemma splitlines_Cons:
  "splitlines (c # cs) =
     takeWhile (\<lambda>c. \<not> is_linebreak c) (c # cs)
       # splitlines (skip_linebreak (dropWhile (\<lambda>c. \<not> is_linebreak c) (c # cs)))"
  by (subst splitlines.simps) simp

lemma split_ws_Nil: "split_ws [] = []"
  by (simp add: split_ws.simps)

lemma split_ws_Cons:
  "split_ws (c # cs) =
     (if is_space c then split_ws cs
      else takeWhile (\<lambda>c. \<not> is_space c) (c # cs) # split_ws (dropWhile (\<lambda>c. \<not> is_space c) cs))"
proof (cases "is_space c")
  case True
  then show ?thesis
    by (subst split_ws.simps, subst (2) split_ws.simps) simp
next
  case False
  then show ?thesis
    by (subst split_ws.simps) simp
qed

lemma strip_empty_iff: "strip s = [] \<longleftrightarrow> (\<forall>c\<in>set s. is_space c)"
proof -
  have "strip s = [] \<longleftrightarrow> (\<forall>c\<in>set (dropWhile is_space s). is_space c)"
    by (simp add: strip_def dropWhile_eq_Nil_conv)
  also have "\<dots> \<longleftrightarrow> (\<forall>c\<in>set s. is_space c)"
    by (induction s) auto
  finally show ?thesis .
qed

lemma strip_whitespace_only: "strip s = [] \<longleftrightarrow> whitespace_only s"
  by (simp add: strip_empty_iff whitespace_only_def list_all_iff)

subsection \<open>The depth of a text\<close>

lemma line_depth_spec: "line_depth line = spec_depth line"
proof -
  have "length (takeWhile (\<lambda>c. c = 0x20) line) + length (dropWhile (\<lambda>c. c = 0x20) line) = length line"
    by (metis length_append takeWhile_dropWhile_id)
  then show ?thesis
    by (simp add: line_depth_def spec_depth_def leading_spaces_def lstrip_space_def)
qed

lemma depth_step_later: "i \<noteq> 1 \<Longrightarrow> depth_step (i, line) m = max m (spec_depth line)"
  by (simp add: depth_step_def line_depth_spec Let_def max_def)

lemma Max_insert_max:
  "finite S \<Longrightarrow> Max (insert (max m a) S) = Max (insert (m::nat) (insert a S))"
  by (cases "S = {}") (simp_all add: max.assoc)

lemma fold_depth_step:
  "2 \<le> n \<Longrightarrow> fold depth_step (enumerate n ls) m = Max (insert m (spec_depth ` set ls))"
proof (induction ls arbitrary: n m)
  case Nil
  then show ?case by simp
next
  case (Cons l ls)
  have "fold depth_step (enumerate n (l # ls)) m
          = fold depth_step (enumerate (Suc n) ls) (max m (spec_depth l))"
    using Cons.prems by (simp add: depth_step_later)
  also have "\<dots> = Max (insert (max m (spec_depth l)) (spec_depth ` set ls))"
    using Cons.prems by (intro Cons.IH) simp
  also have "\<dots> = Max (insert m (spec_depth ` set (l # ls)))"
    by (simp add: Max_insert_max)
  finally show ?case .
qed

lemma fold_depth_step_lines:
  "fold depth_step (enumerate 1 ls) 0 = Max (insert 0 (spec_depth ` set (drop 1 ls)))"
proof (cases ls)
  case Nil
  then show ?thesis by simp
next
  case (Cons l ls')
  then show ?thesis
    by (simp add: depth_step_def fold_depth_step)
qed

lemma max_call_depth_for_None:
  "max_call_depth_for run f r = None \<longleftrightarrow> whitespace_only (run (Cflow f r))"
  by (simp add: max_call_depth_for_def Let_def strip_whitespace_only)

lemma max_call_depth_for_Some:
  "\<not> whitespace_only (run (Cflow f r)) \<Longrightarrow>
   max_call_depth_for run f r = Some (spec_max_depth (run (Cflow f r)))"
  using fold_depth_step_lines [of "splitlines (run (Cflow f r))"]
  by (simp add: max_call_depth_for_def Let_def strip_whitespace_only spec_max_depth_def)

subsection \<open>The example shell evaluated\<close>

lemmas string_eval =
  str_def strip_def is_space_def is_linebreak_def splitlines_Nil splitlines_Cons
  split_ws_Nil split_ws_Cons lstrip_space_def

lemma demo_depth_f: "max_call_depth_for demo_shell (str ''f'') r = Some 2"
  by (simp add: max_call_depth_for_def demo_shell_def depth_step_def line_depth_def string_eval)

lemma demo_depth_g: "max_call_depth_for demo_shell (str ''g'') r = Some 0"
  by (simp add: max_call_depth_for_def demo_shell_def depth_step_def line_depth_def string_eval)

lemma demo_depth_h: "max_call_depth_for demo_shell (str ''h'') r = None"
  by (simp add: max_call_depth_for_def demo_shell_def depth_step_def line_depth_def string_eval)

lemma demo_functions: "list_functions demo_shell r g = [str ''f'', str ''g'', str ''h'']"
  by (simp add: list_functions_def discover_files_def demo_shell_def collect_name_def string_eval)

subsection \<open>The measuring loop\<close>

lemma measure_step_None:
  "max_call_depth_for run g r = None \<Longrightarrow> measure_step run r g (ds, dm) = (ds, dm)"
  by (simp add: measure_step_def)

lemma measure_step_Some:
  "max_call_depth_for run g r = Some d \<Longrightarrow>
   measure_step run r g (ds, dm) = (ds @ [d], AList.update g d dm)"
  by (simp add: measure_step_def)

lemma demo_measure:
  "measure_all demo_shell r [str ''f'', str ''g'', str ''h''] = ([2, 0], [(str ''f'', 2), (str ''g'', 0)])"
  by (simp add: measure_all_def measure_step_None measure_step_Some
      demo_depth_f demo_depth_g demo_depth_h) (simp add: str_def)

lemma fold_measure_step:
  assumes "fold (measure_step run r) funcs (ds, dm) = (ds', dm')"
  shows "ds' = ds @ List.map_filter (\<lambda>g. max_call_depth_for run g r) funcs"
    and "map_of dm' f =
           (if f \<in> set funcs \<and> max_call_depth_for run f r \<noteq> None
            then max_call_depth_for run f r else map_of dm f)"
  using assms
proof (induction funcs arbitrary: ds dm)
  case Nil
  {
    case 1 then show ?case by (simp add: List.map_filter_simps)
  next
    case 2 then show ?case by simp
  }
next
  case (Cons g gs)
  {
    case 1
    show ?case
    proof (cases "max_call_depth_for run g r")
      case None
      with 1 have "fold (measure_step run r) gs (ds, dm) = (ds', dm')"
        by (simp add: measure_step_None)
      from Cons.IH(1)[OF this] None show ?thesis
        by (simp add: List.map_filter_simps)
    next
      case (Some d)
      with 1 have "fold (measure_step run r) gs (ds @ [d], AList.update g d dm) = (ds', dm')"
        by (simp add: measure_step_Some)
      from Cons.IH(1)[OF this] Some show ?thesis
        by (simp add: List.map_filter_simps)
    qed
  next
    case 2
    show ?case
    proof (cases "max_call_depth_for run g r")
      case None
      with 2 have "fold (measure_step run r) gs (ds, dm) = (ds', dm')"
        by (simp add: measure_step_None)
      from Cons.IH(2)[OF this] None show ?thesis
        by auto
    next
      case (Some d)
      with 2 have "fold (measure_step run r) gs (ds @ [d], AList.update g d dm) = (ds', dm')"
        by (simp add: measure_step_Some)
      from Cons.IH(2)[OF this] Some show ?thesis
        by (auto simp: AList.update_conv')
    qed
  }
qed

lemma measure_all_depths:
  "measure_all run r funcs = (depths, dm) \<Longrightarrow>
   depths = List.map_filter (\<lambda>g. max_call_depth_for run g r) funcs"
  using fold_measure_step(1) [of run r funcs "[]" "[]" depths dm]
  by (simp add: measure_all_def)

lemma measure_all_map:
  "measure_all run r funcs = (depths, dm) \<Longrightarrow>
   map_of dm f = (if f \<in> set funcs then max_call_depth_for run f r else None)"
  using fold_measure_step(2) [of run r funcs "[]" "[]" depths dm f]
  by (auto simp: measure_all_def)

lemma measured_depth_in_list:
  assumes "measure_all run r funcs = (depths, dm)" and "map_of dm f = Some d"
  shows "d \<in> set depths"
proof -
  from assms have "f \<in> set funcs" and "max_call_depth_for run f r = Some d"
    by (auto simp: measure_all_map split: if_splits)
  then have "d \<in> set (List.map_filter (\<lambda>g. max_call_depth_for run g r) funcs)"
    by (force simp: List.map_filter_def)
  with measure_all_depths [OF assms(1)] show ?thesis
    by simp
qed

text \<open>
  Claim C4. The depth measurer returns \<open>None\<close>, and not 0, exactly when the output of the tool
  is empty or white space only. An output that is one root line gives the depth 0. In the
  measuring loop, a function of the list measured at depth 0 is in the depth map with the
  value 0 and 0 is in the depth list; an unmeasurable function has no entry in the depth
  map, and the depth list consists of the depths of the measurable functions of the list, in
  order, and of nothing else.
\<close>
theorem unmeasurable_sentinel_and_depth_zero:
  "(max_call_depth_for run f r = None \<longleftrightarrow> whitespace_only (run (Cflow f r))) \<and>
   (\<not> whitespace_only (run (Cflow f r)) \<and> length (splitlines (run (Cflow f r))) = 1
      \<longrightarrow> max_call_depth_for run f r = Some 0) \<and>
   (measure_all run r funcs = (depths, dm) \<longrightarrow>
      (f \<in> set funcs \<and> max_call_depth_for run f r = Some 0
         \<longrightarrow> map_of dm f = Some 0 \<and> 0 \<in> set depths) \<and>
      (max_call_depth_for run f r = None \<longrightarrow> map_of dm f = None) \<and>
      depths = List.map_filter (\<lambda>g. max_call_depth_for run g r) funcs)"
proof (intro conjI impI)
  show "max_call_depth_for run f r = None \<longleftrightarrow> whitespace_only (run (Cflow f r))"
    by (rule max_call_depth_for_None)
next
  assume "\<not> whitespace_only (run (Cflow f r)) \<and> length (splitlines (run (Cflow f r))) = 1"
  then show "max_call_depth_for run f r = Some 0"
    by (simp add: max_call_depth_for_Some spec_max_depth_def)
next
  assume m: "measure_all run r funcs = (depths, dm)"
    and f: "f \<in> set funcs \<and> max_call_depth_for run f r = Some 0"
  from m f show "map_of dm f = Some 0"
    by (simp add: measure_all_map)
  with m show "0 \<in> set depths"
    by (rule measured_depth_in_list)
next
  assume "measure_all run r funcs = (depths, dm)" and "max_call_depth_for run f r = None"
  then show "map_of dm f = None"
    by (simp add: measure_all_map)
next
  assume "measure_all run r funcs = (depths, dm)"
  then show "depths = List.map_filter (\<lambda>g. max_call_depth_for run g r) funcs"
    by (rule measure_all_depths)
qed

lemma silent_depth: "max_call_depth_for silent_shell f r = None"
  by (simp add: max_call_depth_for_def silent_shell_def strip_def)

text \<open>
  Claim C3, as amended. For every output text of the call-graph tool that is not empty and
  not white space only, the depth measurer leaves the first line out, gives every other
  line the depth of its leading space characters divided by 2 (integer division), and
  returns the maximum of these depths, 0 when there is no line after the first.
\<close>
theorem depth_is_max_over_later_lines:
  assumes "\<not> whitespace_only (run (Cflow func src_root))"
  shows "max_call_depth_for run func src_root =
           Some (Max (insert 0 (spec_depth ` set (drop 1 (splitlines (run (Cflow func src_root)))))))
         \<and> (\<forall>line. line_depth line = leading_spaces line div 2)"
  using max_call_depth_for_Some [of run func src_root] assms
  by (simp add: spec_max_depth_def line_depth_spec spec_depth_def)

text \<open>
  The amended claim C3 on the three-line tree of \<^verbatim>\<open>f\<close>: the lines after the root have two and
  four leading spaces, and the depth is 2.
\<close>
theorem depth_is_max_over_later_lines_witness:
  "\<not> whitespace_only (demo_shell (Cflow (str ''f'') (str ''.''))) \<and>
   splitlines (demo_shell (Cflow (str ''f'') (str ''.''))) = [str ''f'', str ''  g'', str ''    k''] \<and>
   max_call_depth_for demo_shell (str ''f'') (str ''.'') = Some 2"
proof -
  have ne: "\<not> whitespace_only (demo_shell (Cflow (str ''f'') (str ''.'')))"
    by (simp add: whitespace_only_def demo_shell_def str_def is_space_def)
  have ls: "splitlines (demo_shell (Cflow (str ''f'') (str ''.'')))
              = [str ''f'', str ''  g'', str ''    k'']"
    by (simp add: demo_shell_def string_eval)
  have "Max (insert 0 (spec_depth ` set [str ''  g'', str ''    k''])) = 2"
    by (simp add: spec_depth_def leading_spaces_def str_def)
  with depth_is_max_over_later_lines [of demo_shell "str ''f''" "str ''.''"] ne ls
  have "max_call_depth_for demo_shell (str ''f'') (str ''.'') = Some 2"
    by simp
  with ne ls show ?thesis by simp
qed

text \<open>
  Claim C3 as stated fails where the tool prints nothing: there is no line after the first,
  so the claim gives the depth 0, and the measurer returns \<open>None\<close> (line 50).
\<close>
theorem depth_of_empty_output_counterexample:
  "max_call_depth_for silent_shell (str ''f'') (str ''.'') = None \<and>
   spec_max_depth (silent_shell (Cflow (str ''f'') (str ''.''))) = 0 \<and>
   max_call_depth_for silent_shell (str ''f'') (str ''.'')
     \<noteq> Some (spec_max_depth (silent_shell (Cflow (str ''f'') (str ''.''))))"
  by (simp add: silent_depth spec_max_depth_def silent_shell_def splitlines_Nil)

text \<open>
  Claim C4 on the example shell: \<^verbatim>\<open>h\<close> is unmeasurable and absent from the map, \<^verbatim>\<open>g\<close> has
  a root line only and is kept at depth 0.
\<close>
theorem unmeasurable_sentinel_and_depth_zero_witness:
  "whitespace_only (demo_shell (Cflow (str ''h'') (str ''.''))) \<and>
   max_call_depth_for demo_shell (str ''h'') (str ''.'') = None \<and>
   \<not> whitespace_only (demo_shell (Cflow (str ''g'') (str ''.''))) \<and>
   length (splitlines (demo_shell (Cflow (str ''g'') (str ''.'')))) = 1 \<and>
   max_call_depth_for demo_shell (str ''g'') (str ''.'') = Some 0 \<and>
   measure_all demo_shell (str ''.'') [str ''f'', str ''g'', str ''h'']
     = ([2, 0], [(str ''f'', 2), (str ''g'', 0)]) \<and>
   map_of [(str ''f'', 2), (str ''g'', 0 :: nat)] (str ''g'') = Some 0 \<and>
   map_of [(str ''f'', 2), (str ''g'', 0 :: nat)] (str ''h'') = None"
proof -
  let ?funcs = "[str ''f'', str ''g'', str ''h'']"
  let ?dm = "[(str ''f'', 2), (str ''g'', 0 :: nat)]"
  have wh: "whitespace_only (demo_shell (Cflow (str ''h'') (str ''.'')))"
    by (simp add: whitespace_only_def demo_shell_def str_def)
  have wg: "\<not> whitespace_only (demo_shell (Cflow (str ''g'') (str ''.'')))"
    by (simp add: whitespace_only_def demo_shell_def str_def is_space_def)
  have lg: "length (splitlines (demo_shell (Cflow (str ''g'') (str ''.'')))) = 1"
    by (simp add: demo_shell_def string_eval)
  have m: "measure_all demo_shell (str ''.'') ?funcs = ([2, 0], ?dm)"
    by (rule demo_measure)
  note g = unmeasurable_sentinel_and_depth_zero
             [of demo_shell "str ''g''" "str ''.''" ?funcs "[2, 0]" ?dm]
  note h = unmeasurable_sentinel_and_depth_zero
             [of demo_shell "str ''h''" "str ''.''" ?funcs "[2, 0]" ?dm]
  from h wh have dh: "max_call_depth_for demo_shell (str ''h'') (str ''.'') = None"
    by blast
  from g wg lg have dg: "max_call_depth_for demo_shell (str ''g'') (str ''.'') = Some 0"
    by blast
  from g m dg have "map_of ?dm (str ''g'') = Some 0"
    by simp
  moreover from h m dh have "map_of ?dm (str ''h'') = None"
    by blast
  ultimately show ?thesis
    using wh wg lg m dh dg by blast
qed

subsection \<open>Rounding to a double\<close>

lemma round_mantissa_nonpos: "q \<le> 0 \<Longrightarrow> round_mantissa q = 0"
  by (subst round_mantissa.simps) simp

lemma round_mantissa_up:
  "0 < q \<Longrightarrow> q < 2 ^ 52 \<Longrightarrow> round_mantissa q = round_mantissa (2 * q) / 2"
  by (subst round_mantissa.simps) simp

lemma round_mantissa_down:
  "2 ^ 53 \<le> q \<Longrightarrow> round_mantissa q = 2 * round_mantissa (q / 2)"
proof -
  assume a: "2 ^ 53 \<le> q"
  from a have "0 < q" by (rule less_le_trans [rotated]) simp
  moreover from a have "2 ^ 52 < q" by (rule less_le_trans [rotated]) simp
  ultimately show ?thesis using a
    by (subst round_mantissa.simps) simp
qed

lemma round_mantissa_base:
  "2 ^ 52 \<le> q \<Longrightarrow> q < 2 ^ 53 \<Longrightarrow> round_mantissa q = of_int (round_half_even q)"
proof -
  assume a: "2 ^ 52 \<le> q" and b: "q < 2 ^ 53"
  from a have "0 < q" by (rule less_le_trans [rotated]) simp
  with a b show ?thesis
    by (subst round_mantissa.simps) simp
qed

lemma round_half_even_cases:
  "round_half_even x = \<lfloor>x\<rfloor> \<and> x - of_int \<lfloor>x\<rfloor> \<le> 1 / 2 \<or>
   round_half_even x = \<lfloor>x\<rfloor> + 1 \<and> 1 / 2 \<le> x - of_int \<lfloor>x\<rfloor>"
  by (auto simp: round_half_even_def Let_def)

lemma round_half_even_bounds:
  "of_int (round_half_even x) - x \<le> 1 / 2" "x - of_int (round_half_even x) \<le> 1 / 2"
proof -
  define f where "f = \<lfloor>x\<rfloor>"
  from floor_correct [of x] have f: "of_int f \<le> x" "x < of_int f + 1"
    unfolding f_def by simp_all
  from round_half_even_cases [of x]
  consider (lower) "round_half_even x = f" "x - of_int f \<le> 1 / 2"
    | (upper) "round_half_even x = f + 1" "1 / 2 \<le> x - of_int f"
    unfolding f_def by blast
  then have "of_int (round_half_even x) - x \<le> 1 / 2 \<and> x - of_int (round_half_even x) \<le> 1 / 2"
  proof cases
    case lower
    from f lower(2) show ?thesis unfolding lower(1) by linarith
  next
    case upper
    have "(of_int (f + 1) :: rat) = of_int f + 1" by simp
    with f upper(2) show ?thesis unfolding upper(1) by linarith
  qed
  then show "of_int (round_half_even x) - x \<le> 1 / 2" "x - of_int (round_half_even x) \<le> 1 / 2"
    by simp_all
qed

lemma round_half_even_of_int: "round_half_even (of_int k) = k"
  by (simp add: round_half_even_def)


lemma round_half_even_ge: "of_int k \<le> x \<Longrightarrow> k \<le> round_half_even x"
proof -
  assume "of_int k \<le> x"
  then have "k \<le> \<lfloor>x\<rfloor>" by (simp add: le_floor_iff)
  moreover have "\<lfloor>x\<rfloor> \<le> round_half_even x"
    by (simp add: round_half_even_def Let_def)
  ultimately show ?thesis by simp
qed

lemma mantissa_range_cases:
  fixes q :: rat
  obtains (up) "q < 2 ^ 52" | (down) "2 ^ 53 \<le> q" | (base) "2 ^ 52 \<le> q" "q < 2 ^ 53"
  using not_le_imp_less leI by blast

lemma round_mantissa_pos: "0 < q \<Longrightarrow> 0 < round_mantissa q"
proof (induction q rule: round_mantissa.induct)
  case (1 q)
  from "1.prems" have nz: "\<not> q \<le> 0" by simp
  show ?case
  proof (cases q rule: mantissa_range_cases)
    case up
    from "1.prems" have "0 < 2 * q" by simp
    with "1.IH"(1) [OF nz up] have "0 < round_mantissa (2 * q)" by simp
    then show ?thesis using "1.prems" up by (simp add: round_mantissa_up)
  next
    case down
    then have nlt: "\<not> q < 2 ^ 52" by simp
    from "1.prems" have "0 < q / 2" by simp
    with "1.IH"(2) [OF nz nlt down] have "0 < round_mantissa (q / 2)" by simp
    then show ?thesis using down by (simp add: round_mantissa_down)
  next
    case base
    have "(of_int (2 ^ 52) :: rat) \<le> q" using base(1) by simp
    then have "2 ^ 52 \<le> round_half_even q" by (rule round_half_even_ge)
    then have "0 < round_half_even q" by simp
    then show ?thesis using base by (simp add: round_mantissa_base)
  qed
qed

lemma round_mantissa_error:
  "0 < q \<Longrightarrow> \<bar>round_mantissa q - q\<bar> \<le> q / 2 ^ 53"
proof (induction q rule: round_mantissa.induct)
  case (1 q)
  from "1.prems" have nz: "\<not> q \<le> 0" by simp
  show ?case
  proof (cases q rule: mantissa_range_cases)
    case up
    from "1.prems" have "0 < 2 * q" by simp
    with "1.IH"(1) [OF nz up] have ih: "\<bar>round_mantissa (2 * q) - 2 * q\<bar> \<le> 2 * q / 2 ^ 53" by simp
    have "round_mantissa q = round_mantissa (2 * q) / 2"
      using "1.prems" up by (rule round_mantissa_up)
    then have e: "round_mantissa q - q = (round_mantissa (2 * q) - 2 * q) / 2" by simp
    have "\<bar>round_mantissa q - q\<bar> = \<bar>round_mantissa (2 * q) - 2 * q\<bar> / 2"
      unfolding e by (simp add: abs_divide)
    also from ih have "\<dots> \<le> 2 * q / 2 ^ 53 / 2" by (rule divide_right_mono) simp
    finally show ?thesis by simp
  next
    case down
    then have nlt: "\<not> q < 2 ^ 52" by simp
    from "1.prems" have "0 < q / 2" by simp
    with "1.IH"(2) [OF nz nlt down] have ih: "\<bar>round_mantissa (q / 2) - q / 2\<bar> \<le> q / 2 / 2 ^ 53" by simp
    have "round_mantissa q = 2 * round_mantissa (q / 2)"
      using down by (rule round_mantissa_down)
    then have e: "round_mantissa q - q = 2 * (round_mantissa (q / 2) - q / 2)" by simp
    have "\<bar>round_mantissa q - q\<bar> = \<bar>2 * (round_mantissa (q / 2) - q / 2)\<bar>"
      by (simp only: e)
    also have "\<dots> = 2 * \<bar>round_mantissa (q / 2) - q / 2\<bar>"
      by (simp only: abs_mult abs_numeral)
    finally have "\<bar>round_mantissa q - q\<bar> = 2 * \<bar>round_mantissa (q / 2) - q / 2\<bar>" .
    also from ih have "\<dots> \<le> 2 * (q / 2 / 2 ^ 53)" by (rule mult_left_mono) simp
    finally show ?thesis by simp
  next
    case base
    have "\<bar>of_int (round_half_even q) - q\<bar> \<le> 1 / 2"
      using round_half_even_bounds [of q] by linarith
    moreover have "1 / 2 \<le> q / 2 ^ 53" using base(1) by simp
    ultimately show ?thesis using base by (simp add: round_mantissa_base)
  qed
qed


lemma round_mantissa_dyadic:
  "q = of_nat m / 2 ^ j \<Longrightarrow> m < 2 ^ 53 \<Longrightarrow> round_mantissa q = q"
proof (induction q arbitrary: m j rule: round_mantissa.induct)
  case (1 q)
  have qm: "q \<le> of_nat m"
  proof -
    have "of_nat m / 2 ^ j \<le> (of_nat m :: rat) / 1"
      by (rule divide_left_mono) simp_all
    with "1.prems"(1) show ?thesis by simp
  qed
  show ?case
  proof (cases "q \<le> 0")
    case True
    moreover have "(0::rat) \<le> of_nat m / 2 ^ j" by simp
    ultimately have "q = 0" using "1.prems"(1) by simp
    then show ?thesis by (simp add: round_mantissa_nonpos)
  next
    case nz: False
    then have pos: "0 < q" by simp
    from "1.prems"(2) have mlt: "(of_nat m :: rat) < 2 ^ 53"
      by (metis of_nat_less_iff of_nat_numeral of_nat_power)
    show ?thesis
    proof (cases q rule: mantissa_range_cases)
      case up
      have "\<exists>m' j'. 2 * q = of_nat m' / 2 ^ j' \<and> m' < 2 ^ 53"
      proof (cases j)
        case 0
        with "1.prems"(1) have q: "q = of_nat m" by simp
        with up have "(of_nat m :: rat) < 2 ^ 52" by simp
        then have "m < 2 ^ 52" by (metis of_nat_less_iff of_nat_numeral of_nat_power)
        then have "2 * m < 2 ^ 53" by simp
        moreover from q have "2 * q = of_nat (2 * m) / 2 ^ 0" by simp
        ultimately show ?thesis by blast
      next
        case (Suc i)
        with "1.prems"(1) have "2 * q = of_nat m / 2 ^ i" by simp
        with "1.prems"(2) show ?thesis by blast
      qed
      then obtain m' j' where "2 * q = of_nat m' / 2 ^ j'" "m' < 2 ^ 53" by blast
      from "1.IH"(1) [OF nz up this] have "round_mantissa (2 * q) = 2 * q" .
      moreover have "round_mantissa q = round_mantissa (2 * q) / 2"
        using pos up by (rule round_mantissa_up)
      ultimately show ?thesis by simp
    next
      case down
      with qm mlt show ?thesis by simp
    next
      case base
      have "j = 0"
      proof (rule ccontr)
        assume "j \<noteq> 0"
        then obtain i where j: "j = Suc i" by (cases j) auto
        have "of_nat m / 2 ^ i \<le> (of_nat m :: rat) / 1"
          by (rule divide_left_mono) simp_all
        with "1.prems"(1) j have "2 * q \<le> of_nat m" by simp
        with mlt base(1) show False by simp
      qed
      with "1.prems"(1) have "q = of_int (int m)" by simp
      then have "round_half_even q = int m" by (simp only: round_half_even_of_int)
      with \<open>q = of_int (int m)\<close> show ?thesis using base by (simp add: round_mantissa_base)
    qed
  qed
qed

lemma round_mantissa_scaled_up:
  "2 ^ 52 \<le> q * 2 ^ k \<Longrightarrow> q * 2 ^ k < 2 ^ 53 \<Longrightarrow>
   round_mantissa q = of_int (round_half_even (q * 2 ^ k)) / 2 ^ k"
proof (induction k arbitrary: q)
  case 0
  then show ?case by (simp add: round_mantissa_base)
next
  case (Suc k)
  from Suc.prems have a: "2 ^ 52 \<le> (2 * q) * 2 ^ k" and b: "(2 * q) * 2 ^ k < 2 ^ 53"
    by (simp_all add: mult.assoc mult.left_commute)
  have pos: "0 < q"
  proof (rule ccontr)
    assume "\<not> 0 < q"
    then have "q * 2 ^ Suc k \<le> 0" by (simp add: mult_le_0_iff)
    with Suc.prems(1) show False by simp
  qed
  have "q * 1 \<le> q * 2 ^ k" using pos by (intro mult_left_mono) simp_all
  moreover from b have "q * 2 ^ k < 2 ^ 52" by simp
  ultimately have up: "q < 2 ^ 52" by simp
  have "round_mantissa q = round_mantissa (2 * q) / 2"
    using pos up by (rule round_mantissa_up)
  also have "round_mantissa (2 * q) = of_int (round_half_even ((2 * q) * 2 ^ k)) / 2 ^ k"
    using a b by (rule Suc.IH)
  finally show ?case by (simp add: mult.assoc mult.left_commute)
qed



lemma round_double_pos: "0 < q \<Longrightarrow> 0 < round_double q"
  by (simp add: round_double_def round_mantissa_pos)

lemma round_double_zero: "round_double 0 = 0"
  by (simp add: round_double_def round_mantissa_nonpos)

lemma round_double_nat: "n < 2 ^ 53 \<Longrightarrow> round_double (of_nat n) = of_nat n"
  using round_mantissa_dyadic [of "of_nat n" n 0] by (simp add: round_double_def)


lemma round_double_error: "0 \<le> q \<Longrightarrow> \<bar>round_double q - q\<bar> \<le> q / 2 ^ 53"
proof (cases "q = 0")
  case True
  then show ?thesis by (simp add: round_double_zero)
next
  case False
  assume "0 \<le> q"
  with False have "0 < q" by simp
  then show ?thesis using round_mantissa_error [of q] by (simp add: round_double_def)
qed

lemma round_half_even_below: "of_int k \<le> x \<Longrightarrow> x < of_int k + 1 / 2 \<Longrightarrow> round_half_even x = k"
proof -
  assume a: "of_int k \<le> x" and b: "x < of_int k + 1 / 2"
  then have "\<lfloor>x\<rfloor> = k" by (intro floor_unique) simp_all
  with b show ?thesis by (simp add: round_half_even_def Let_def)
qed

lemma round_half_even_above: "of_int k - 1 / 2 < x \<Longrightarrow> x < of_int k \<Longrightarrow> round_half_even x = k"
proof -
  assume a: "of_int k - 1 / 2 < x" and b: "x < of_int k"
  then have "\<lfloor>x\<rfloor> = k - 1" by (intro floor_unique) simp_all
  with a show ?thesis by (simp add: round_half_even_def Let_def)
qed


lemma round_double_two_thirds:
  "round_double (200 / 3) = 4691249611844267 / 70368744177664"
proof -
  have "round_mantissa (200 / 3) = of_int (round_half_even (200 / 3 * 2 ^ 46)) / 2 ^ 46"
    by (rule round_mantissa_scaled_up) simp_all
  moreover have "round_half_even (200 / 3 * 2 ^ 46) = 4691249611844267"
    by (rule round_half_even_above) simp_all
  ultimately show ?thesis by (simp add: round_double_def)
qed



lemma round_double_numeral:
  "numeral w < (2::nat) ^ 53 \<Longrightarrow> round_double (numeral w) = numeral w"
  using round_double_nat [of "numeral w"] by simp

lemma round_double_one: "round_double 1 = 1"
  using round_double_nat [of 1] by simp

lemma float_of_nat_exact: "n < 2 ^ 53 \<Longrightarrow> float_of_nat n = of_nat n"
  by (simp add: float_of_nat_def round_double_nat)


lemma float_of_nat_pos: "0 < n \<Longrightarrow> 0 < float_of_nat n"
  by (simp add: float_of_nat_def round_double_pos)

lemma percentile_Inr: "0 < n \<Longrightarrow> percentile r n = Inr (percentile_value r n)"
  using float_of_nat_pos [of n] by (simp add: percentile_def fdiv_def percentile_value_def)


lemma percentile_value_small:
  assumes "r \<le> n" and "100 * n < 2 ^ 53"
  shows "percentile_value r n = round_double (100 * of_nat r / of_nat n)"
proof -
  from assms have r: "r < 2 ^ 53" and n: "n < 2 ^ 53" and p: "100 * r < 2 ^ 53" by simp_all
  have "fmul 100 (float_of_nat r) = round_double (of_nat (100 * r))"
    using r by (simp add: fmul_def float_of_nat_exact)
  also have "\<dots> = of_nat (100 * r)"
    using p by (rule round_double_nat)
  finally show ?thesis
    using n by (simp add: percentile_value_def float_of_nat_exact)
qed


lemma percentile_value_error:
  assumes "r \<le> n" and "100 * n < 2 ^ 53"
  shows "\<bar>percentile_value r n - 100 * of_nat r / of_nat n\<bar> \<le> 100 * of_nat r / of_nat n / 2 ^ 53"
proof -
  have "(0::rat) \<le> 100 * of_nat r / of_nat n" by simp
  then have "\<bar>round_double (100 * of_nat r / of_nat n) - 100 * of_nat r / of_nat n\<bar>
               \<le> 100 * of_nat r / of_nat n / 2 ^ 53"
    by (rule round_double_error)
  with assms show ?thesis by (simp add: percentile_value_small)
qed

lemma percentile_value_2_3: "percentile_value 2 3 = 4691249611844267 / 70368744177664"
proof -
  have "percentile_value 2 3 = round_double (100 * of_nat 2 / of_nat 3)"
    by (rule percentile_value_small) simp_all
  then show ?thesis by (simp add: round_double_two_thirds)
qed

lemma percentile_value_whole: "0 < n \<Longrightarrow> 100 * n < 2 ^ 53 \<Longrightarrow> percentile_value n n = 100"
proof -
  assume n: "0 < n" and b: "100 * n < 2 ^ 53"
  have "percentile_value n n = round_double (100 * of_nat n / of_nat n)"
    using b by (intro percentile_value_small) simp_all
  also have "\<dots> = round_double 100" using n by simp
  also have "\<dots> = 100" by (rule round_double_numeral) simp
  finally show ?thesis .
qed

lemma percentile_value_1_2: "percentile_value 1 2 = 50"
proof -
  have "percentile_value 1 2 = round_double (100 * of_nat 1 / of_nat 2)"
    by (rule percentile_value_small) simp_all
  also have "\<dots> = round_double 50" by simp
  also have "\<dots> = 50" by (rule round_double_numeral) simp
  finally show ?thesis .
qed

lemma percentile_value_1_2_Suc: "percentile_value (Suc 0) (Suc (Suc 0)) = 50"
  using percentile_value_1_2 by (simp add: numeral_2_eq_2)


lemma fsub_100_100: "fsub 100 100 = 0"
  by (simp add: fsub_def round_double_zero)

subsection \<open>Binary search and the statistics\<close>

lemma getitem_in_range: "i < length xs \<Longrightarrow> getitem xs i = Inr (xs ! i)"
  by (simp add: getitem_def)

lemma bisect_loop_stop: "\<not> lo < hi \<Longrightarrow> bisect_loop a x lo hi = Inr lo"
  by (subst bisect_loop.simps) simp

lemma bisect_loop_left:
  assumes "lo < hi" and "hi \<le> length a" and "x < a ! ((lo + hi) div 2)"
  shows "bisect_loop a x lo hi = bisect_loop a x lo ((lo + hi) div 2)"
proof -
  from assms(1,2) have "(lo + hi) div 2 < length a" by auto
  then have "getitem a ((lo + hi) div 2) = Inr (a ! ((lo + hi) div 2))"
    by (rule getitem_in_range)
  with assms(1,3) show ?thesis
    by (subst bisect_loop.simps) (simp add: Let_def)
qed

lemma bisect_loop_right:
  assumes "lo < hi" and "hi \<le> length a" and "\<not> x < a ! ((lo + hi) div 2)"
  shows "bisect_loop a x lo hi = bisect_loop a x ((lo + hi) div 2 + 1) hi"
proof -
  from assms(1,2) have "(lo + hi) div 2 < length a" by auto
  then have "getitem a ((lo + hi) div 2) = Inr (a ! ((lo + hi) div 2))"
    by (rule getitem_in_range)
  with assms(1,3) show ?thesis
    by (subst bisect_loop.simps) (simp add: Let_def)
qed

lemma bisect_loop_total:
  "hi \<le> length a \<Longrightarrow> \<exists>r. bisect_loop a x lo hi = Inr r"
proof (induction a x lo hi rule: bisect_loop.induct)
  case (1 a x lo hi)
  show ?case
  proof (cases "lo < hi")
    case False
    then show ?thesis by (simp add: bisect_loop_stop)
  next
    case True
    let ?mid = "(lo + hi) div 2"
    from True "1.prems" have mid: "?mid < length a" "?mid \<le> length a" by auto
    then have g: "getitem a ?mid = Inr (a ! ?mid)" by (simp add: getitem_def)
    show ?thesis
    proof (cases "x < a ! ?mid")
      case left: True
      from "1.IH"(1) [OF True refl g left mid(2)] True "1.prems" left
      show ?thesis by (simp add: bisect_loop_left)
    next
      case right: False
      from "1.IH"(2) [OF True refl g right "1.prems"] True "1.prems" right
      show ?thesis by (simp add: bisect_loop_right)
    qed
  qed
qed

lemma bisect_loop_sorted:
  assumes "sorted a" and "lo \<le> hi" and "hi \<le> length a"
    and "\<forall>i<lo. a ! i \<le> x" and "\<forall>i. hi \<le> i \<and> i < length a \<longrightarrow> x < a ! i"
  shows "\<exists>r. bisect_loop a x lo hi = Inr r \<and> r \<le> length a \<and>
           (\<forall>i<r. a ! i \<le> x) \<and> (\<forall>i. r \<le> i \<and> i < length a \<longrightarrow> x < a ! i)"
  using assms
proof (induction a x lo hi rule: bisect_loop.induct)
  case (1 a x lo hi)
  show ?case
  proof (cases "lo < hi")
    case False
    with "1.prems" have "lo = hi" by simp
    with "1.prems" False show ?thesis by (simp add: bisect_loop_stop)
  next
    case True
    let ?mid = "(lo + hi) div 2"
    from True "1.prems" have mid: "lo \<le> ?mid" "?mid < hi" "?mid < length a" by auto
    then have g: "getitem a ?mid = Inr (a ! ?mid)" by (simp add: getitem_def)
    show ?thesis
    proof (cases "x < a ! ?mid")
      case left: True
      have above: "\<forall>i. ?mid \<le> i \<and> i < length a \<longrightarrow> x < a ! i"
      proof (intro allI impI)
        fix i assume i: "?mid \<le> i \<and> i < length a"
        with \<open>sorted a\<close> have "a ! ?mid \<le> a ! i"
          by (simp add: sorted_nth_mono)
        with left show "x < a ! i" by simp
      qed
      from mid have "?mid \<le> length a" by simp
      from "1.IH"(1) [OF True refl g left \<open>sorted a\<close> mid(1) this "1.prems"(4) above]
      show ?thesis
        using True "1.prems"(3) left by (simp add: bisect_loop_left)
    next
      case right: False
      have below: "\<forall>i<?mid + 1. a ! i \<le> x"
      proof (intro allI impI)
        fix i assume "i < ?mid + 1"
        then have "i \<le> ?mid" by simp
        with \<open>sorted a\<close> mid(3) have "a ! i \<le> a ! ?mid"
          by (simp add: sorted_nth_mono)
        with right show "a ! i \<le> x" by simp
      qed
      from mid have "?mid + 1 \<le> hi" by simp
      from "1.IH"(2) [OF True refl g right \<open>sorted a\<close> this "1.prems"(3) below "1.prems"(5)]
      show ?thesis
        using True "1.prems"(3) right by (simp add: bisect_loop_right)
    qed
  qed
qed

lemma filter_split_at:
  assumes "r \<le> length a" and "\<forall>i<r. P (a ! i)" and "\<forall>i. r \<le> i \<and> i < length a \<longrightarrow> \<not> P (a ! i)"
  shows "filter P a = take r a"
proof -
  have "\<forall>y\<in>set (take r a). P y"
    using assms(1,2) by (auto simp: in_set_conv_nth)
  then have t: "filter P (take r a) = take r a"
    by simp
  have "\<forall>y\<in>set (drop r a). \<not> P y"
  proof
    fix y assume "y \<in> set (drop r a)"
    then obtain j where "j < length a - r" and "y = a ! (r + j)"
      by (auto simp: in_set_conv_nth)
    with assms(3) show "\<not> P y" by simp
  qed
  then have d: "filter P (drop r a) = []"
    by simp
  have "filter P a = filter P (take r a @ drop r a)"
    by simp
  also have "\<dots> = take r a"
    using t d by (simp del: append_take_drop_id)
  finally show ?thesis .
qed

lemma bisect_right_sorted:
  assumes "sorted a"
  shows "bisect_right a x = Inr (count_le a x)"
proof -
  from bisect_loop_sorted [of a 0 "length a" x] assms
  obtain r where r: "bisect_loop a x 0 (length a) = Inr r" "r \<le> length a"
    "\<forall>i<r. a ! i \<le> x" "\<forall>i. r \<le> i \<and> i < length a \<longrightarrow> x < a ! i"
    by auto
  from r(4) have "\<forall>i. r \<le> i \<and> i < length a \<longrightarrow> \<not> a ! i \<le> x"
    by (simp add: not_le)
  with r(2,3) have "filter (\<lambda>d. d \<le> x) a = take r a"
    by (rule filter_split_at)
  with r(2) have "count_le a x = r"
    by (simp add: count_le_def)
  with r(1) show ?thesis
    by (simp add: bisect_right_def)
qed

lemma count_le_sort: "count_le (sort depths) td = count_le depths td"
  by (simp add: count_le_def filter_sort)

lemma quartile_index_less: "0 < n \<Longrightarrow> k < 4 \<Longrightarrow> quartile_index k n < n"
proof -
  assume n: "0 < n" and k: "k < 4"
  then have "k * n < 4 * n" by simp
  then show ?thesis
    unfolding quartile_index_def by (simp add: less_mult_imp_div_less mult.commute)
qed

lemma compute_stats_sorted:
  assumes "sorted ds" and "ds \<noteq> []"
  shows "compute_stats ds td =
           Inr \<lparr>rank = count_le ds td,
                pct = percentile_value (count_le ds td) (length ds),
                q1 = ds ! quartile_index 1 (length ds),
                q2 = ds ! quartile_index 2 (length ds),
                q3 = ds ! quartile_index 3 (length ds),
                cls = classify td (ds ! quartile_index 1 (length ds))
                        (ds ! quartile_index 3 (length ds))\<rparr>"
proof -
  from assms(2) have n: "0 < length ds" by simp
  then have "quartile_index 1 (length ds) < length ds" "quartile_index 2 (length ds) < length ds"
    "quartile_index 3 (length ds) < length ds"
    by (simp_all add: quartile_index_less)
  then show ?thesis
    using n assms(1)
    by (simp add: compute_stats_def and_then_def bisect_right_sorted percentile_Inr
        getitem_in_range)
qed

lemma compute_stats_total:
  assumes "ds \<noteq> []"
  shows "\<exists>s. compute_stats ds td = Inr s"
proof -
  from assms have n: "0 < length ds" by simp
  then have "quartile_index 1 (length ds) < length ds" "quartile_index 2 (length ds) < length ds"
    "quartile_index 3 (length ds) < length ds"
    by (simp_all add: quartile_index_less)
  moreover obtain r where "bisect_right ds td = Inr r"
    using bisect_loop_total [of "length ds" ds td 0] by (auto simp: bisect_right_def)
  ultimately show ?thesis
    using n by (simp add: compute_stats_def and_then_def percentile_Inr getitem_in_range)
qed

lemma measured_target_stats:
  assumes "measure_all run r funcs = (depths, dm)" and "map_of dm target = Some td"
  shows "td \<in> set depths" and "depths \<noteq> []" and "sort depths \<noteq> []"
proof -
  from assms show "td \<in> set depths" by (rule measured_depth_in_list)
  then show "depths \<noteq> []" by auto
  then show "sort depths \<noteq> []" by (metis length_sort length_0_conv)
qed

lemma compute_stats_sort:
  assumes "depths \<noteq> []"
  shows "compute_stats (sort depths) td =
           Inr \<lparr>rank = count_le depths td,
                pct = percentile_value (count_le depths td) (length depths),
                q1 = sort depths ! quartile_index 1 (length depths),
                q2 = sort depths ! quartile_index 2 (length depths),
                q3 = sort depths ! quartile_index 3 (length depths),
                cls = classify td (sort depths ! quartile_index 1 (length depths))
                        (sort depths ! quartile_index 3 (length depths))\<rparr>"
proof -
  from assms have "sort depths \<noteq> []" by (metis length_sort length_0_conv)
  from compute_stats_sorted [OF _ this, of td] show ?thesis
    by (simp add: count_le_sort)
qed

lemma count_le_bounds:
  assumes "td \<in> set depths"
  shows "1 \<le> count_le depths td" and "count_le depths td \<le> length depths"
proof -
  from assms have "td \<in> set (filter (\<lambda>d. d \<le> td) depths)" by simp
  then have "filter (\<lambda>d. d \<le> td) depths \<noteq> []" by (auto simp: filter_empty_conv)
  then show "1 \<le> count_le depths td"
    by (simp add: count_le_def Suc_le_eq)
  show "count_le depths td \<le> length depths"
    by (simp add: count_le_def)
qed

text \<open>
  Claim C1, as amended. Whenever the depth map holds the target, at depth \<open>td\<close>, the
  statistics are computed without an exception, the rank is the number of measured depths
  that are at most \<open>td\<close>, which is the upper-bound position of \<open>td\<close> in the ascending depth
  list (every element before it is at most \<open>td\<close>, every element from it on is greater), and
  the percentile is the double that line 102 computes; when 100 times the number of measured
  depths is below \<open>2^53\<close>, this is the double nearest to 100 times the rank divided by that
  number, within the relative error \<open>2^-53\<close> of it. For the sorted depths 0, 2, 4 and a target
  of depth 2 the rank is 2 and the percentile is the double nearest to \<open>100 * 2 / 3\<close>, which is
  \<open>4691249611844267 / 2^46\<close>.
\<close>

theorem rank_is_count_and_percentile:
  assumes "measure_all run r funcs = (depths, dm)" and "map_of dm target = Some td"
  shows "(\<exists>s. compute_stats (sort depths) td = Inr s \<and>
            rank s = length (filter (\<lambda>d. d \<le> td) depths) \<and>
            (\<forall>i<rank s. sort depths ! i \<le> td) \<and>
            (\<forall>i. rank s \<le> i \<and> i < length depths \<longrightarrow> td < sort depths ! i) \<and>
            pct s = percentile_value (rank s) (length depths) \<and>
            (100 * length depths < 2 ^ 53 \<longrightarrow>
               pct s = round_double (100 * of_nat (rank s) / of_nat (length depths)) \<and>
               \<bar>pct s - 100 * of_nat (rank s) / of_nat (length depths)\<bar>
                 \<le> 100 * of_nat (rank s) / of_nat (length depths) / 2 ^ 53)) \<and>
         (\<exists>s. compute_stats [0, 2, 4] 2 = Inr s \<and> rank s = 2 \<and>
            pct s = round_double (100 * 2 / 3) \<and>
            pct s = 4691249611844267 / 70368744177664)"
proof
  from assms have ne: "depths \<noteq> []" and td: "td \<in> set depths"
    by (rule measured_target_stats)+
  let ?r = "count_le depths td"
  from td have le: "?r \<le> length depths" by (rule count_le_bounds)
  from bisect_loop_sorted [of "sort depths" 0 "length (sort depths)" td]
  obtain k where k: "bisect_right (sort depths) td = Inr k"
    "\<forall>i<k. sort depths ! i \<le> td" "\<forall>i. k \<le> i \<and> i < length depths \<longrightarrow> td < sort depths ! i"
    by (auto simp: bisect_right_def)
  from k(1) have kr: "k = ?r"
    by (simp add: bisect_right_sorted count_le_sort)
  obtain s where s: "compute_stats (sort depths) td = Inr s"
    and sel: "rank s = ?r" "pct s = percentile_value ?r (length depths)"
    using compute_stats_sort [OF ne, of td] by simp
  have small: "100 * length depths < 2 ^ 53 \<longrightarrow>
      pct s = round_double (100 * of_nat (rank s) / of_nat (length depths)) \<and>
      \<bar>pct s - 100 * of_nat (rank s) / of_nat (length depths)\<bar>
        \<le> 100 * of_nat (rank s) / of_nat (length depths) / 2 ^ 53"
  proof
    assume b: "100 * length depths < 2 ^ 53"
    from le b have "percentile_value ?r (length depths)
        = round_double (100 * of_nat ?r / of_nat (length depths))"
      by (rule percentile_value_small)
    moreover from le b have "\<bar>percentile_value ?r (length depths)
          - 100 * of_nat ?r / of_nat (length depths)\<bar>
        \<le> 100 * of_nat ?r / of_nat (length depths) / 2 ^ 53"
      by (rule percentile_value_error)
    ultimately show "pct s = round_double (100 * of_nat (rank s) / of_nat (length depths)) \<and>
      \<bar>pct s - 100 * of_nat (rank s) / of_nat (length depths)\<bar>
        \<le> 100 * of_nat (rank s) / of_nat (length depths) / 2 ^ 53"
      unfolding sel by (rule conjI)
  qed
  from k(2,3) kr sel have
    "rank s = length (filter (\<lambda>d. d \<le> td) depths)"
    "\<forall>i<rank s. sort depths ! i \<le> td"
    "\<forall>i. rank s \<le> i \<and> i < length depths \<longrightarrow> td < sort depths ! i"
    "pct s = percentile_value (rank s) (length depths)"
    by (simp_all add: count_le_def)
  with s small
  show "\<exists>s. compute_stats (sort depths) td = Inr s \<and>
            rank s = length (filter (\<lambda>d. d \<le> td) depths) \<and>
            (\<forall>i<rank s. sort depths ! i \<le> td) \<and>
            (\<forall>i. rank s \<le> i \<and> i < length depths \<longrightarrow> td < sort depths ! i) \<and>
            pct s = percentile_value (rank s) (length depths) \<and>
            (100 * length depths < 2 ^ 53 \<longrightarrow>
               pct s = round_double (100 * of_nat (rank s) / of_nat (length depths)) \<and>
               \<bar>pct s - 100 * of_nat (rank s) / of_nat (length depths)\<bar>
                 \<le> 100 * of_nat (rank s) / of_nat (length depths) / 2 ^ 53)"
    by blast
next
  have "sorted [0, 2, 4 :: nat]" by simp
  from compute_stats_sorted [OF this, of 2]
  have "compute_stats [0, 2, 4] 2
          = Inr \<lparr>rank = 2, pct = percentile_value 2 3, q1 = 0, q2 = 2, q3 = 4, cls = MidRange\<rparr>"
    by (simp add: count_le_def quartile_index_def classify_def numeral_2_eq_2 [symmetric]
        numeral_3_eq_3 [symmetric])
  then show "\<exists>s. compute_stats [0, 2, 4] 2 = Inr s \<and> rank s = 2 \<and>
            pct s = round_double (100 * 2 / 3) \<and>
            pct s = 4691249611844267 / 70368744177664"
    by (simp add: percentile_value_2_3 round_double_two_thirds)
qed

text \<open>
  The amended claim C1 on the example shell and the target \<^verbatim>\<open>g\<close>, measured at depth 0 among
  the depths 2 and 0: rank 1, percentile 50.
\<close>

theorem rank_is_count_and_percentile_witness:
  "measure_all demo_shell (str ''.'') [str ''f'', str ''g'', str ''h'']
     = ([2, 0], [(str ''f'', 2), (str ''g'', 0)]) \<and>
   map_of [(str ''f'', 2), (str ''g'', 0 :: nat)] (str ''g'') = Some 0 \<and>
   100 * length [2, 0 :: nat] < 2 ^ 53 \<and>
   (\<exists>s. compute_stats (sort [2, 0]) 0 = Inr s \<and> rank s = 1 \<and> pct s = 50)"
proof -
  let ?dm = "[(str ''f'', 2), (str ''g'', 0 :: nat)]"
  have m: "measure_all demo_shell (str ''.'') [str ''f'', str ''g'', str ''h''] = ([2, 0], ?dm)"
    by (rule demo_measure)
  have t: "map_of ?dm (str ''g'') = Some 0"
    by (simp add: str_def)
  have b: "100 * length [2, 0 :: nat] < 2 ^ 53" by simp
  from rank_is_count_and_percentile [OF m t] b
  obtain s where s: "compute_stats (sort [2, 0]) 0 = Inr s"
    and r: "rank s = length (filter (\<lambda>d. d \<le> 0) [2, 0 :: nat])"
    and p: "pct s = round_double (100 * of_nat (rank s) / of_nat (length [2, 0 :: nat]))"
    by blast
  from r have r1: "rank s = 1" by simp
  have "round_double 50 = 50" by (rule round_double_numeral) simp
  with p r1 have "pct s = 50" by simp
  with s r1 m t b show ?thesis by blast
qed

text \<open>
  Claim C1 as stated fails on its own example: for the depths 0, 2, 4 and a target of depth 2
  the percentile is the double \<open>4691249611844267 / 2^46\<close>, which is not \<open>100 * 2 / 3\<close>.
\<close>

theorem percentile_exact_quotient_counterexample:
  "compute_stats [0, 2, 4] 2
     = Inr \<lparr>rank = 2, pct = 4691249611844267 / 70368744177664,
            q1 = 0, q2 = 2, q3 = 4, cls = MidRange\<rparr> \<and>
   (4691249611844267 / 70368744177664 :: rat) \<noteq> 100 * 2 / 3"
proof -
  have "sorted [0, 2, 4 :: nat]" by simp
  from compute_stats_sorted [OF this, of 2]
  have "compute_stats [0, 2, 4] 2
          = Inr \<lparr>rank = 2, pct = percentile_value 2 3, q1 = 0, q2 = 2, q3 = 4, cls = MidRange\<rparr>"
    by (simp add: count_le_def quartile_index_def classify_def numeral_2_eq_2 [symmetric]
        numeral_3_eq_3 [symmetric])
  then show ?thesis by (simp add: percentile_value_2_3)
qed





text \<open>
  Claim C6. For every depth list that is not empty, the quartiles are the elements of the
  ascending list at the indices \<open>n div 4\<close>, \<open>n div 2\<close> and \<open>3 * n div 4\<close>, where \<open>n\<close> is the
  length, and Q1 is at most Q2, which is at most Q3.
\<close>
theorem quartiles_ordered:
  assumes "depths \<noteq> []"
  shows "\<exists>s. compute_stats (sort depths) td = Inr s \<and>
           q1 s = sort depths ! (length depths div 4) \<and>
           q2 s = sort depths ! (length depths div 2) \<and>
           q3 s = sort depths ! (3 * length depths div 4) \<and>
           q1 s \<le> q2 s \<and> q2 s \<le> q3 s"
proof -
  let ?n = "length depths"
  from assms have n: "0 < ?n" by simp
  have i: "quartile_index 1 ?n = ?n div 4" "quartile_index 2 ?n = ?n div 2"
    "quartile_index 3 ?n = 3 * ?n div 4"
    by (simp_all add: quartile_index_def)
  have "?n div 4 \<le> ?n div 2" "?n div 2 \<le> 3 * ?n div 4" "3 * ?n div 4 < ?n"
    using n by linarith+
  then have "sort depths ! (?n div 4) \<le> sort depths ! (?n div 2)"
    and "sort depths ! (?n div 2) \<le> sort depths ! (3 * ?n div 4)"
    by (simp_all add: sorted_nth_mono)
  with compute_stats_sort [OF assms, of td] i show ?thesis
    by simp
qed

text \<open>
  Claim C6 on five depths: the ascending list is 0, 1, 2, 3, 5 and the quartiles are its
  elements at the indices 1, 2 and 3.
\<close>
theorem quartiles_ordered_witness:
  "[1, 0, 3, 2, 5 :: nat] \<noteq> [] \<and>
   (\<exists>s. compute_stats (sort [1, 0, 3, 2, 5]) 3 = Inr s \<and> q1 s = 1 \<and> q2 s = 2 \<and> q3 s = 3)"
proof -
  have ne: "[1, 0, 3, 2, 5 :: nat] \<noteq> []" by simp
  have srt: "sort [1, 0, 3, 2, 5 :: nat] = [0, 1, 2, 3, 5]" by simp
  from quartiles_ordered [OF ne, of 3]
  obtain s where "compute_stats (sort [1, 0, 3, 2, 5]) 3 = Inr s"
    and "q1 s = sort [1, 0, 3, 2, 5] ! (length [1, 0, 3, 2, 5 :: nat] div 4)"
    and "q2 s = sort [1, 0, 3, 2, 5] ! (length [1, 0, 3, 2, 5 :: nat] div 2)"
    and "q3 s = sort [1, 0, 3, 2, 5] ! (3 * length [1, 0, 3, 2, 5 :: nat] div 4)"
    by blast
  then have "compute_stats (sort [1, 0, 3, 2, 5]) 3 = Inr s \<and> q1 s = 1 \<and> q2 s = 2 \<and> q3 s = 3"
    by (simp add: srt)
  with ne show ?thesis by blast
qed

subsection \<open>Classification\<close>

lemma classify_deep: "q \<le> td \<Longrightarrow> classify td p q = Deep"
  by (simp add: classify_def)

lemma classify_shallow: "td < q \<Longrightarrow> td \<le> p \<Longrightarrow> classify td p q = Shallow"
  by (simp add: classify_def)

text \<open>
  Claim C2, as amended. Whenever the depth map holds the target, at depth \<open>td\<close>: a depth equal
  to Q3 is classified as deep; a depth equal to Q1 is classified as shallow when Q1 is below
  Q3; when Q1 equals Q3, a depth equal to both is classified as deep, the test against Q3
  coming first; this is the case when all measured depths are equal.
\<close>
theorem quartile_boundaries_classification:
  assumes "measure_all run r funcs = (depths, dm)" and "map_of dm target = Some td"
  shows "\<exists>s. compute_stats (sort depths) td = Inr s \<and>
           (td = q3 s \<longrightarrow> cls s = Deep) \<and>
           (td = q1 s \<and> q1 s < q3 s \<longrightarrow> cls s = Shallow) \<and>
           (td = q1 s \<and> q1 s = q3 s \<longrightarrow> cls s = Deep) \<and>
           ((\<forall>d\<in>set depths. d = td) \<longrightarrow> q1 s = td \<and> q3 s = td \<and> cls s = Deep)"
proof -
  from assms have ne: "depths \<noteq> []" by (rule measured_target_stats)
  let ?n = "length depths"
  let ?a = "sort depths ! quartile_index 1 ?n"
  let ?c = "sort depths ! quartile_index 3 ?n"
  from ne have n: "0 < ?n" by simp
  have "quartile_index 1 ?n < length (sort depths)"
    using quartile_index_less [OF n, of 1] by simp
  then have "?a \<in> set (sort depths)" by (rule nth_mem)
  then have in1: "?a \<in> set depths" by simp
  have "quartile_index 3 ?n < length (sort depths)"
    using quartile_index_less [OF n, of 3] by simp
  then have "?c \<in> set (sort depths)" by (rule nth_mem)
  then have in3: "?c \<in> set depths" by simp
  have "td = ?c \<longrightarrow> classify td ?a ?c = Deep"
    by (simp add: classify_deep)
  moreover have "td = ?a \<and> ?a < ?c \<longrightarrow> classify td ?a ?c = Shallow"
    by (simp add: classify_shallow)
  moreover have "td = ?a \<and> ?a = ?c \<longrightarrow> classify td ?a ?c = Deep"
    by (simp add: classify_deep)
  moreover have "(\<forall>d\<in>set depths. d = td) \<longrightarrow> ?a = td \<and> ?c = td \<and> classify td ?a ?c = Deep"
  proof
    assume eq: "\<forall>d\<in>set depths. d = td"
    from eq in1 have a: "?a = td" by blast
    from eq in3 have c: "?c = td" by blast
    from c have "classify td ?a ?c = Deep" by (simp add: classify_deep)
    with a c show "?a = td \<and> ?c = td \<and> classify td ?a ?c = Deep" by blast
  qed
  moreover obtain s where s: "compute_stats (sort depths) td = Inr s"
    and sel: "q1 s = ?a" "q3 s = ?c" "cls s = classify td ?a ?c"
    using compute_stats_sort [OF ne, of td] by simp
  ultimately have
    "(td = q3 s \<longrightarrow> cls s = Deep) \<and>
     (td = q1 s \<and> q1 s < q3 s \<longrightarrow> cls s = Shallow) \<and>
     (td = q1 s \<and> q1 s = q3 s \<longrightarrow> cls s = Deep) \<and>
     ((\<forall>d\<in>set depths. d = td) \<longrightarrow> q1 s = td \<and> q3 s = td \<and> cls s = Deep)"
    unfolding sel by blast
  with s show ?thesis by blast
qed

text \<open>
  The amended claim C2 on the example shell and the target \<^verbatim>\<open>g\<close>: its depth 0 is Q1, Q3 is 2,
  and the class is shallow.
\<close>
theorem quartile_boundaries_classification_witness:
  "measure_all demo_shell (str ''.'') [str ''f'', str ''g'', str ''h'']
     = ([2, 0], [(str ''f'', 2), (str ''g'', 0)]) \<and>
   map_of [(str ''f'', 2), (str ''g'', 0 :: nat)] (str ''g'') = Some 0 \<and>
   (\<exists>s. compute_stats (sort [2, 0]) 0 = Inr s \<and> q1 s = 0 \<and> q3 s = 2 \<and> cls s = Shallow)"
proof -
  let ?dm = "[(str ''f'', 2), (str ''g'', 0 :: nat)]"
  have m: "measure_all demo_shell (str ''.'') [str ''f'', str ''g'', str ''h''] = ([2, 0], ?dm)"
    by (rule demo_measure)
  have t: "map_of ?dm (str ''g'') = Some 0"
    by (simp add: str_def)
  have "sorted [0, 2 :: nat]" by simp
  from compute_stats_sorted [OF this, of 0]
  have c: "compute_stats (sort [2, 0]) 0
             = Inr \<lparr>rank = 1, pct = 50, q1 = 0, q2 = 2, q3 = 2, cls = Shallow\<rparr>"
    by (simp add: count_le_def quartile_index_def classify_def percentile_value_whole
        percentile_value_1_2_Suc)
  from quartile_boundaries_classification [OF m t]
  obtain s where s: "compute_stats (sort [2, 0]) 0 = Inr s"
    and sh: "0 = q1 s \<and> q1 s < q3 s \<longrightarrow> cls s = Shallow"
    by blast
  from s c have "q1 s = 0" "q3 s = 2" by simp_all
  with sh have "cls s = Shallow" by simp
  with s \<open>q1 s = 0\<close> \<open>q3 s = 2\<close> m t show ?thesis by blast
qed

text \<open>
  Claim C2 as stated fails when all depths are equal: with three functions of depth 1 the
  target's depth equals Q1, and it is classified as deep, not as shallow.
\<close>
theorem equal_depths_shallow_counterexample:
  "compute_stats (sort [1, 1, 1]) 1
     = Inr \<lparr>rank = 3, pct = 100, q1 = 1, q2 = 1, q3 = 1, cls = Deep\<rparr> \<and>
   classify 1 1 1 \<noteq> Shallow"
proof -
  have "sorted [1, 1, 1 :: nat]" by simp
  from compute_stats_sorted [OF this, of 1] show ?thesis
    by (simp add: count_le_def quartile_index_def classify_def percentile_value_whole
        percentile_value_1_2_Suc)
qed

subsection \<open>The paths of the program\<close>

lemma main_usage: "length argv < 2 \<Longrightarrow> main run argv = Inr ([Usage], 1)"
  by (simp add: main_def)

lemma main_no_functions:
  assumes "2 \<le> length argv"
    and "list_functions run (arg_src_root argv) (arg_file_glob argv) = []"
  shows "main run argv = Inr ([NoFunctions], 2)"
  using assms by (simp add: main_def Let_def)

lemma main_no_depths:
  assumes "2 \<le> length argv"
    and "list_functions run (arg_src_root argv) (arg_file_glob argv) = funcs"
    and "funcs \<noteq> []"
    and "measure_all run (arg_src_root argv) funcs = ([], dm)"
  shows "main run argv = Inr ([NoDepths], 3)"
  using assms by (simp add: main_def Let_def)

lemma main_target_missing:
  assumes "2 \<le> length argv"
    and "list_functions run (arg_src_root argv) (arg_file_glob argv) = funcs"
    and "funcs \<noteq> []"
    and "measure_all run (arg_src_root argv) funcs = (depths, dm)"
    and "depths \<noteq> []"
    and "map_of dm (arg_target argv) = None"
  shows "main run argv
           = Inr ([TargetMissing (arg_target argv), FallbackHeader] @ print_top dm, 4)"
  using assms by (simp add: main_def Let_def)

lemma main_success:
  assumes "2 \<le> length argv"
    and "list_functions run (arg_src_root argv) (arg_file_glob argv) = funcs"
    and "funcs \<noteq> []"
    and "measure_all run (arg_src_root argv) funcs = (depths, dm)"
    and "depths \<noteq> []"
    and "map_of dm (arg_target argv) = Some td"
    and "compute_stats (sort depths) td = Inr s"
  shows "main run argv
           = Inr (print_summary (arg_target argv) td (sort depths) s @ [TopHeader]
                    @ print_top dm, 0)"
  using assms by (simp add: main_def Let_def and_then_def)

lemma map_filter_empty_iff: "List.map_filter f xs = [] \<longleftrightarrow> (\<forall>x\<in>set xs. f x = None)"
  by (induction xs) (auto simp: List.map_filter_simps split: option.splits)

lemma no_depths_iff:
  assumes "measure_all run r funcs = (depths, dm)"
  shows "depths = [] \<longleftrightarrow> (\<forall>f\<in>set funcs. max_call_depth_for run f r = None)"
  using measure_all_depths [OF assms] by (simp add: map_filter_empty_iff)

lemma main_total: "\<exists>msgs code. main run argv = Inr (msgs, code)"
proof (cases "length argv < 2")
  case True
  then show ?thesis by (simp add: main_usage)
next
  case False
  then have a: "2 \<le> length argv" by simp
  let ?funcs = "list_functions run (arg_src_root argv) (arg_file_glob argv)"
  show ?thesis
  proof (cases "?funcs = []")
    case True
    with a show ?thesis by (simp add: main_no_functions)
  next
    case ne: False
    obtain depths dm where m: "measure_all run (arg_src_root argv) ?funcs = (depths, dm)"
      by (cases "measure_all run (arg_src_root argv) ?funcs") auto
    show ?thesis
    proof (cases "depths = []")
      case True
      with a ne m main_no_depths [OF a refl ne, of dm] show ?thesis by simp
    next
      case d: False
      show ?thesis
      proof (cases "map_of dm (arg_target argv)")
        case None
        from main_target_missing [OF a refl ne m d None] show ?thesis by simp
      next
        case (Some td)
        from d have "sort depths \<noteq> []" by (metis length_sort length_0_conv)
        then obtain s where "compute_stats (sort depths) td = Inr s"
          using compute_stats_total by blast
        from main_success [OF a refl ne m d Some this] show ?thesis by simp
      qed
    qed
  qed
qed

lemma args_two:
  "arg_target [p, t] = t" "arg_src_root [p, t] = str ''.''" "arg_file_glob [p, t] = default_glob"
  by (simp_all add: arg_target_def arg_src_root_def arg_file_glob_def)

lemma silent_functions: "list_functions silent_shell r g = []"
  by (simp add: list_functions_def discover_files_def silent_shell_def strip_def splitlines_Nil)

lemma treeless_functions: "list_functions treeless_shell r g = [str ''f'']"
  by (simp add: list_functions_def discover_files_def treeless_shell_def collect_name_def
      string_eval)

lemma treeless_measure: "measure_all treeless_shell r [str ''f''] = ([], [])"
  by (simp add: measure_all_def measure_step_def max_call_depth_for_def treeless_shell_def
      strip_def)

lemma demo_top: "print_top [(str ''f'', 2), (str ''g'', 0)] = [TopEntry 2 (str ''f''), TopEntry 0 (str ''g'')]"
  by (simp add: print_top_def top20_def top_key_def str_def)

lemma demo_stats_f:
  "compute_stats (sort [2, 0]) 2 = Inr \<lparr>rank = 2, pct = 100, q1 = 0, q2 = 2, q3 = 2, cls = Deep\<rparr>"
proof -
  have "sorted [0, 2 :: nat]" by simp
  from compute_stats_sorted [OF this, of 2] show ?thesis
    by (simp add: count_le_def quartile_index_def classify_def percentile_value_whole
        percentile_value_1_2_Suc)
qed

text \<open>
  Claim C5. With \<open>funcs\<close> the enumerated functions and \<open>depths\<close>, \<open>dm\<close> the depth list and
  depth map of the measuring loop: the program prints the usage text and exits with code 1
  when the target argument is missing; prints one message and exits with 2 when no function
  is enumerated; exits with 3 when no function's depth could be measured, which is when the
  depth list is empty; prints the failure and the top-20 list and exits with 4 when the
  target is not in the depth map; and otherwise prints the full report, summary and top-20
  list, and ends with code 0, no exception being raised.
\<close>
theorem main_exit_codes:
  assumes "list_functions run (arg_src_root argv) (arg_file_glob argv) = funcs"
    and "measure_all run (arg_src_root argv) funcs = (depths, dm)"
  shows "(length argv < 2 \<longrightarrow> main run argv = Inr ([Usage], 1)) \<and>
         (2 \<le> length argv \<and> funcs = [] \<longrightarrow> main run argv = Inr ([NoFunctions], 2)) \<and>
         (2 \<le> length argv \<and> funcs \<noteq> [] \<and>
            (\<forall>f\<in>set funcs. max_call_depth_for run f (arg_src_root argv) = None)
            \<longrightarrow> main run argv = Inr ([NoDepths], 3)) \<and>
         (2 \<le> length argv \<and> funcs \<noteq> [] \<and> depths \<noteq> [] \<and> map_of dm (arg_target argv) = None
            \<longrightarrow> main run argv
                  = Inr ([TargetMissing (arg_target argv), FallbackHeader] @ print_top dm, 4)) \<and>
         (\<forall>td. 2 \<le> length argv \<and> funcs \<noteq> [] \<and> map_of dm (arg_target argv) = Some td
            \<longrightarrow> (\<exists>s. compute_stats (sort depths) td = Inr s \<and>
                  main run argv
                    = Inr (print_summary (arg_target argv) td (sort depths) s @ [TopHeader]
                             @ print_top dm, 0))) \<and>
         (depths = [] \<longleftrightarrow> (\<forall>f\<in>set funcs. max_call_depth_for run f (arg_src_root argv) = None))"
proof (intro conjI impI allI)
  assume "length argv < 2"
  then show "main run argv = Inr ([Usage], 1)" by (rule main_usage)
next
  assume "2 \<le> length argv \<and> funcs = []"
  with assms(1) show "main run argv = Inr ([NoFunctions], 2)"
    by (simp add: main_no_functions)
next
  assume h: "2 \<le> length argv \<and> funcs \<noteq> [] \<and>
    (\<forall>f\<in>set funcs. max_call_depth_for run f (arg_src_root argv) = None)"
  with no_depths_iff [OF assms(2)] have "depths = []" by simp
  with assms(2) have "measure_all run (arg_src_root argv) funcs = ([], dm)" by simp
  with h assms(1) show "main run argv = Inr ([NoDepths], 3)"
    by (simp add: main_no_depths)
next
  assume h: "2 \<le> length argv \<and> funcs \<noteq> [] \<and> depths \<noteq> [] \<and> map_of dm (arg_target argv) = None"
  then have a: "2 \<le> length argv" and ne: "funcs \<noteq> []" and d: "depths \<noteq> []"
    and t: "map_of dm (arg_target argv) = None" by simp_all
  from main_target_missing [OF a assms(1) ne assms(2) d t]
  show "main run argv = Inr ([TargetMissing (arg_target argv), FallbackHeader] @ print_top dm, 4)" .
next
  fix td
  assume h: "2 \<le> length argv \<and> funcs \<noteq> [] \<and> map_of dm (arg_target argv) = Some td"
  then have a: "2 \<le> length argv" and ne: "funcs \<noteq> []"
    and t: "map_of dm (arg_target argv) = Some td" by simp_all
  from assms(2) t have d: "depths \<noteq> []" and sd: "sort depths \<noteq> []"
    by (rule measured_target_stats)+
  from sd obtain s where s: "compute_stats (sort depths) td = Inr s"
    using compute_stats_total by blast
  from main_success [OF a assms(1) ne assms(2) d t s] s
  show "\<exists>s. compute_stats (sort depths) td = Inr s \<and>
          main run argv
            = Inr (print_summary (arg_target argv) td (sort depths) s @ [TopHeader]
                     @ print_top dm, 0)"
    by blast
next
  show "depths = [] \<longleftrightarrow> (\<forall>f\<in>set funcs. max_call_depth_for run f (arg_src_root argv) = None)"
    by (rule no_depths_iff [OF assms(2)])
qed

text \<open>
  Claim C5 on five runs, one for each exit code, with all that is printed.
\<close>
theorem main_exit_codes_witness:
  "main silent_shell [str ''prog''] = Inr ([Usage], 1) \<and>
   main silent_shell [str ''prog'', str ''f''] = Inr ([NoFunctions], 2) \<and>
   main treeless_shell [str ''prog'', str ''f''] = Inr ([NoDepths], 3) \<and>
   main demo_shell [str ''prog'', str ''h'']
     = Inr ([TargetMissing (str ''h''), FallbackHeader,
             TopEntry 2 (str ''f''), TopEntry 0 (str ''g'')], 4) \<and>
   main demo_shell [str ''prog'', str ''f'']
     = Inr ([ResultHeader, TargetLine (str ''f''), DepthLine 2, PositionLine 0 100,
             CountLine 2, BlankLine, QuartileLine 0 2 2, ClassLine Deep, TopHeader,
             TopEntry 2 (str ''f''), TopEntry 0 (str ''g'')], 0)"
proof -
  let ?p = "str ''prog''" and ?f = "str ''f''" and ?h = "str ''h''"
  let ?funcs = "[str ''f'', str ''g'', str ''h'']"
  let ?dm = "[(str ''f'', 2), (str ''g'', 0 :: nat)]"
  have one: "main silent_shell [?p] = Inr ([Usage], 1)"
  proof -
    have "list_functions silent_shell (arg_src_root [?p]) (arg_file_glob [?p]) = []"
      by (rule silent_functions)
    moreover have "measure_all silent_shell (arg_src_root [?p]) [] = ([], [])"
      by (simp add: measure_all_def)
    ultimately show ?thesis
      using main_exit_codes [of silent_shell "[?p]" "[]" "[]" "[]"] by simp
  qed
  have two: "main silent_shell [?p, ?f] = Inr ([NoFunctions], 2)"
  proof -
    have "list_functions silent_shell (arg_src_root [?p, ?f]) (arg_file_glob [?p, ?f]) = []"
      by (rule silent_functions)
    moreover have "measure_all silent_shell (arg_src_root [?p, ?f]) [] = ([], [])"
      by (simp add: measure_all_def)
    ultimately show ?thesis
      using main_exit_codes [of silent_shell "[?p, ?f]" "[]" "[]" "[]"] by simp
  qed
  have three: "main treeless_shell [?p, ?f] = Inr ([NoDepths], 3)"
  proof -
    have "list_functions treeless_shell (arg_src_root [?p, ?f]) (arg_file_glob [?p, ?f]) = [?f]"
      by (rule treeless_functions)
    moreover have "measure_all treeless_shell (arg_src_root [?p, ?f]) [?f] = ([], [])"
      by (rule treeless_measure)
    ultimately have
      "2 \<le> length [?p, ?f] \<and> [?f] \<noteq> [] \<and>
         (\<forall>f\<in>set [?f]. max_call_depth_for treeless_shell f (arg_src_root [?p, ?f]) = None)
       \<longrightarrow> main treeless_shell [?p, ?f] = Inr ([NoDepths], 3)"
      and "[] = ([] :: nat list) \<longleftrightarrow>
         (\<forall>f\<in>set [?f]. max_call_depth_for treeless_shell f (arg_src_root [?p, ?f]) = None)"
      using main_exit_codes [of treeless_shell "[?p, ?f]" "[?f]" "[]" "[]"] by blast+
    then show ?thesis by simp
  qed
  have four: "main demo_shell [?p, ?h]
     = Inr ([TargetMissing ?h, FallbackHeader, TopEntry 2 ?f, TopEntry 0 (str ''g'')], 4)"
  proof -
    have "list_functions demo_shell (arg_src_root [?p, ?h]) (arg_file_glob [?p, ?h]) = ?funcs"
      by (rule demo_functions)
    moreover have "measure_all demo_shell (arg_src_root [?p, ?h]) ?funcs = ([2, 0], ?dm)"
      by (rule demo_measure)
    ultimately have
      "2 \<le> length [?p, ?h] \<and> ?funcs \<noteq> [] \<and> [2, 0 :: nat] \<noteq> [] \<and>
         map_of ?dm (arg_target [?p, ?h]) = None
       \<longrightarrow> main demo_shell [?p, ?h]
             = Inr ([TargetMissing (arg_target [?p, ?h]), FallbackHeader] @ print_top ?dm, 4)"
      using main_exit_codes [of demo_shell "[?p, ?h]" ?funcs "[2, 0]" ?dm] by blast
    moreover have "map_of ?dm ?h = None" by (simp add: str_def)
    ultimately show ?thesis
      by (simp add: args_two demo_top)
  qed
  have five: "main demo_shell [?p, ?f]
     = Inr ([ResultHeader, TargetLine ?f, DepthLine 2, PositionLine 0 100,
             CountLine 2, BlankLine, QuartileLine 0 2 2, ClassLine Deep, TopHeader,
             TopEntry 2 ?f, TopEntry 0 (str ''g'')], 0)"
  proof -
    have "list_functions demo_shell (arg_src_root [?p, ?f]) (arg_file_glob [?p, ?f]) = ?funcs"
      by (rule demo_functions)
    moreover have "measure_all demo_shell (arg_src_root [?p, ?f]) ?funcs = ([2, 0], ?dm)"
      by (rule demo_measure)
    ultimately have
      "\<forall>td. 2 \<le> length [?p, ?f] \<and> ?funcs \<noteq> [] \<and> map_of ?dm (arg_target [?p, ?f]) = Some td
         \<longrightarrow> (\<exists>s. compute_stats (sort [2, 0]) td = Inr s \<and>
               main demo_shell [?p, ?f]
                 = Inr (print_summary (arg_target [?p, ?f]) td (sort [2, 0]) s @ [TopHeader]
                          @ print_top ?dm, 0))"
      using main_exit_codes [of demo_shell "[?p, ?f]" ?funcs "[2, 0]" ?dm] by blast
    moreover have "map_of ?dm (arg_target [?p, ?f]) = Some 2"
      by (simp add: args_two)
    ultimately obtain s where s: "compute_stats (sort [2, 0]) 2 = Inr s"
      and m: "main demo_shell [?p, ?f]
                = Inr (print_summary (arg_target [?p, ?f]) 2 (sort [2, 0]) s @ [TopHeader]
                         @ print_top ?dm, 0)"
      by auto
    from s demo_stats_f have "s = \<lparr>rank = 2, pct = 100, q1 = 0, q2 = 2, q3 = 2, cls = Deep\<rparr>"
      by simp
    with m show ?thesis
      by (simp add: args_two demo_top print_summary_def fsub_100_100)
  qed
  from one two three four five show ?thesis by blast
qed

text \<open>
  Claim C10. For every depth list of length \<open>n > 0\<close>, the three quartile indices are below
  \<open>n\<close>, so that each of the three lookups returns the element at its index and the statistics
  are computed without an exception; and no run of the program raises \<^verbatim>\<open>IndexError\<close>.
\<close>
theorem quartile_lookups_in_range:
  "(depths \<noteq> [] \<longrightarrow>
      quartile_index 1 (length depths) < length depths \<and>
      quartile_index 2 (length depths) < length depths \<and>
      quartile_index 3 (length depths) < length depths \<and>
      getitem depths (quartile_index 1 (length depths))
        = Inr (depths ! quartile_index 1 (length depths)) \<and>
      getitem depths (quartile_index 2 (length depths))
        = Inr (depths ! quartile_index 2 (length depths)) \<and>
      getitem depths (quartile_index 3 (length depths))
        = Inr (depths ! quartile_index 3 (length depths)) \<and>
      (\<exists>s. compute_stats depths td = Inr s)) \<and>
   main run argv \<noteq> Inl IndexError"
proof
  show "depths \<noteq> [] \<longrightarrow>
      quartile_index 1 (length depths) < length depths \<and>
      quartile_index 2 (length depths) < length depths \<and>
      quartile_index 3 (length depths) < length depths \<and>
      getitem depths (quartile_index 1 (length depths))
        = Inr (depths ! quartile_index 1 (length depths)) \<and>
      getitem depths (quartile_index 2 (length depths))
        = Inr (depths ! quartile_index 2 (length depths)) \<and>
      getitem depths (quartile_index 3 (length depths))
        = Inr (depths ! quartile_index 3 (length depths)) \<and>
      (\<exists>s. compute_stats depths td = Inr s)"
  proof
    assume ne: "depths \<noteq> []"
    then have n: "0 < length depths" by simp
    have "quartile_index 1 (length depths) < length depths"
      "quartile_index 2 (length depths) < length depths"
      "quartile_index 3 (length depths) < length depths"
      using n by (simp_all add: quartile_index_less)
    with compute_stats_total [OF ne, of td]
    show "quartile_index 1 (length depths) < length depths \<and>
      quartile_index 2 (length depths) < length depths \<and>
      quartile_index 3 (length depths) < length depths \<and>
      getitem depths (quartile_index 1 (length depths))
        = Inr (depths ! quartile_index 1 (length depths)) \<and>
      getitem depths (quartile_index 2 (length depths))
        = Inr (depths ! quartile_index 2 (length depths)) \<and>
      getitem depths (quartile_index 3 (length depths))
        = Inr (depths ! quartile_index 3 (length depths)) \<and>
      (\<exists>s. compute_stats depths td = Inr s)"
      by (simp add: getitem_in_range)
  qed
next
  from main_total [of run argv] show "main run argv \<noteq> Inl IndexError" by auto
qed

text \<open>
  Claim C10 on the two sorted depths of the example shell: the indices are 0, 1 and 1.
\<close>
theorem quartile_lookups_in_range_witness:
  "[0, 2 :: nat] \<noteq> [] \<and>
   quartile_index 1 (length [0, 2 :: nat]) = 0 \<and>
   quartile_index 2 (length [0, 2 :: nat]) = 1 \<and>
   quartile_index 3 (length [0, 2 :: nat]) = 1 \<and>
   getitem [0, 2 :: nat] (quartile_index 1 (length [0, 2 :: nat])) = Inr 0 \<and>
   getitem [0, 2 :: nat] (quartile_index 2 (length [0, 2 :: nat])) = Inr 2 \<and>
   getitem [0, 2 :: nat] (quartile_index 3 (length [0, 2 :: nat])) = Inr 2 \<and>
   main demo_shell [str ''prog'', str ''f''] \<noteq> Inl IndexError"
proof -
  let ?ds = "[0, 2 :: nat]"
  have ne: "?ds \<noteq> []" by simp
  have i: "quartile_index 1 (length ?ds) = 0" "quartile_index 2 (length ?ds) = 1"
    "quartile_index 3 (length ?ds) = 1"
    by (simp_all add: quartile_index_def)
  from quartile_lookups_in_range [of ?ds 2 demo_shell "[str ''prog'', str ''f'']"] ne
  have "getitem ?ds (quartile_index 1 (length ?ds)) = Inr (?ds ! quartile_index 1 (length ?ds))"
    and "getitem ?ds (quartile_index 2 (length ?ds)) = Inr (?ds ! quartile_index 2 (length ?ds))"
    and "getitem ?ds (quartile_index 3 (length ?ds)) = Inr (?ds ! quartile_index 3 (length ?ds))"
    and m: "main demo_shell [str ''prog'', str ''f''] \<noteq> Inl IndexError"
    by blast+
  then have "getitem ?ds (quartile_index 1 (length ?ds)) = Inr 0"
    and "getitem ?ds (quartile_index 2 (length ?ds)) = Inr 2"
    and "getitem ?ds (quartile_index 3 (length ?ds)) = Inr 2"
    unfolding i by simp_all
  with ne i m show ?thesis by blast
qed

subsection \<open>The top-20 list in order\<close>

lemma top_key_le: "top_key x \<le> top_key y \<longleftrightarrow> snd y < snd x \<or> (snd x = snd y \<and> fst x \<le> fst y)"
  by (auto simp: top_key_def less_eq_prod_def)

lemma sorted_wrt_distinct_keys:
  "sorted_wrt P xs \<Longrightarrow> distinct (map fst xs) \<Longrightarrow> sorted_wrt (\<lambda>x y. P x y \<and> fst x \<noteq> fst y) xs"
  by (induction xs) force+

lemma sorted_wrt_top_before:
  assumes "distinct (map fst dm)"
  shows "sorted_wrt top_before (sort_key top_key dm)"
proof -
  have "sorted (map top_key (sort_key top_key dm))"
    by (rule sorted_sort_key)
  then have "sorted_wrt (\<lambda>x y. top_key x \<le> top_key y) (sort_key top_key dm)"
    by (simp add: sorted_wrt_map)
  moreover have "distinct (map fst (sort_key top_key dm))"
    using assms by (metis distinct_map distinct_sort set_sort)
  ultimately have "sorted_wrt (\<lambda>x y. top_key x \<le> top_key y \<and> fst x \<noteq> fst y) (sort_key top_key dm)"
    by (rule sorted_wrt_distinct_keys)
  then show ?thesis
    by (rule sorted_wrt_mono_rel [rotated]) (auto simp: top_key_le top_before_def)
qed

lemma top20_ordered: "distinct (map fst dm) \<Longrightarrow> sorted_wrt top_before (top20 dm)"
  unfolding top20_def by (rule sorted_wrt_take) (rule sorted_wrt_top_before)

lemma top20_length: "length (top20 dm) = min 20 (length dm)"
  by (simp add: top20_def min.commute)

lemma top20_subset: "set (top20 dm) \<subseteq> set dm"
  unfolding top20_def using set_take_subset [of 20 "sort_key top_key dm"] by simp

lemma top_entries_append: "top_entries (xs @ ys) = top_entries xs @ top_entries ys"
  by (induction xs rule: top_entries.induct) simp_all

lemma top_entries_print_top: "top_entries (print_top dm) = top20 dm"
proof -
  have "top_entries (map (\<lambda>(name, d). TopEntry d name) xs) = xs" for xs
    by (induction xs) auto
  then show ?thesis by (simp add: print_top_def)
qed

lemma top_entries_print_summary: "top_entries (print_summary t td ds s) = []"
  by (simp add: print_summary_def)

lemma update_new_key: "k \<notin> fst ` set al \<Longrightarrow> AList.update k v al = al @ [(k, v)]"
  by (induction al) auto

lemma fold_measure_step_keys:
  "fold (measure_step run r) funcs (ds, dm) = (ds', dm') \<Longrightarrow> distinct (map fst dm) \<Longrightarrow>
   distinct (map fst dm')"
proof (induction funcs arbitrary: ds dm)
  case Nil
  then show ?case by simp
next
  case (Cons g gs)
  show ?case
  proof (cases "max_call_depth_for run g r")
    case None
    with Cons.prems(1) have "fold (measure_step run r) gs (ds, dm) = (ds', dm')"
      by (simp add: measure_step_None)
    then show ?thesis using Cons.prems(2) by (rule Cons.IH)
  next
    case (Some d)
    with Cons.prems(1)
    have "fold (measure_step run r) gs (ds @ [d], AList.update g d dm) = (ds', dm')"
      by (simp add: measure_step_Some)
    moreover have "distinct (map fst (AList.update g d dm))"
      using Cons.prems(2) by (rule AList.distinct_update)
    ultimately show ?thesis by (rule Cons.IH)
  qed
qed

lemma fold_measure_step_lengths:
  "fold (measure_step run r) funcs (ds, dm) = (ds', dm') \<Longrightarrow> distinct funcs \<Longrightarrow>
   set funcs \<inter> fst ` set dm = {} \<Longrightarrow> length ds = length dm \<Longrightarrow> length ds' = length dm'"
proof (induction funcs arbitrary: ds dm)
  case Nil
  then show ?case by simp
next
  case (Cons g gs)
  from Cons.prems(2) have dg: "distinct gs" and gn: "g \<notin> set gs" by simp_all
  show ?case
  proof (cases "max_call_depth_for run g r")
    case None
    with Cons.prems(1) have "fold (measure_step run r) gs (ds, dm) = (ds', dm')"
      by (simp add: measure_step_None)
    moreover from Cons.prems(3) have "set gs \<inter> fst ` set dm = {}" by auto
    ultimately show ?thesis using dg Cons.prems(4) Cons.IH by blast
  next
    case (Some d)
    from Cons.prems(3) have "g \<notin> fst ` set dm" by auto
    then have u: "AList.update g d dm = dm @ [(g, d)]" by (rule update_new_key)
    with Some Cons.prems(1)
    have f: "fold (measure_step run r) gs (ds @ [d], dm @ [(g, d)]) = (ds', dm')"
      by (simp add: measure_step_Some)
    from Cons.prems(3) gn have "set gs \<inter> fst ` set (dm @ [(g, d)]) = {}" by auto
    moreover from Cons.prems(4) have "length (ds @ [d]) = length (dm @ [(g, d)])" by simp
    ultimately show ?thesis using f dg Cons.IH by blast
  qed
qed

lemma measure_all_keys:
  "measure_all run r funcs = (depths, dm) \<Longrightarrow> distinct (map fst dm)"
  using fold_measure_step_keys [of run r funcs "[]" "[]" depths dm]
  by (simp add: measure_all_def)

lemma measure_all_lengths:
  "measure_all run r funcs = (depths, dm) \<Longrightarrow> distinct funcs \<Longrightarrow> length depths = length dm"
  using fold_measure_step_lengths [of run r funcs "[]" "[]" depths dm]
  by (simp add: measure_all_def)

lemma list_functions_distinct: "distinct (list_functions run r g)"
  by (simp add: list_functions_def Let_def)

lemma list_functions_sorted: "sorted (list_functions run r g)"
  by (simp add: list_functions_def Let_def)

lemma demo_main_h:
  "main demo_shell [str ''prog'', str ''h'']
     = Inr ([TargetMissing (str ''h''), FallbackHeader,
             TopEntry 2 (str ''f''), TopEntry 0 (str ''g'')], 4)"
proof -
  let ?argv = "[str ''prog'', str ''h'']"
  let ?funcs = "[str ''f'', str ''g'', str ''h'']"
  let ?dm = "[(str ''f'', 2), (str ''g'', 0 :: nat)]"
  have a: "2 \<le> length ?argv" by simp
  have f: "list_functions demo_shell (arg_src_root ?argv) (arg_file_glob ?argv) = ?funcs"
    by (rule demo_functions)
  have ne: "?funcs \<noteq> []" by simp
  have m: "measure_all demo_shell (arg_src_root ?argv) ?funcs = ([2, 0], ?dm)"
    by (rule demo_measure)
  have d: "[2, 0 :: nat] \<noteq> []" by simp
  have t: "map_of ?dm (arg_target ?argv) = None"
    by (simp add: args_two str_def)
  from main_target_missing [OF a f ne m d t] show ?thesis
    by (simp add: args_two demo_top)
qed

text \<open>
  Claim C8. In every run, the top-20 lines that are printed are at most 20 and in order:
  of two lines, the earlier has the greater depth or, at equal depth, the smaller name. In
  the runs that end with code 0 (the report) or 4 (the target is missing) these lines are
  the first 20 items of the depth map sorted by the key (minus depth, name); they are items
  of the depth map, and their number is the smaller of 20 and the number of measured
  functions.
\<close>
theorem printed_top20:
  assumes "main run argv = Inr (msgs, code)"
  shows "length (top_entries msgs) \<le> 20 \<and>
         sorted_wrt top_before (top_entries msgs) \<and>
         (code = 0 \<or> code = 4 \<longrightarrow>
            (\<exists>depths dm.
               measure_all run (arg_src_root argv)
                 (list_functions run (arg_src_root argv) (arg_file_glob argv)) = (depths, dm) \<and>
               top_entries msgs = take 20 (sort_key top_key dm) \<and>
               set (top_entries msgs) \<subseteq> set dm \<and>
               length (top_entries msgs) = min 20 (length depths)))"
proof (cases "length argv < 2")
  case True
  with assms show ?thesis by (auto simp: main_usage)
next
  case False
  then have a: "2 \<le> length argv" by simp
  let ?funcs = "list_functions run (arg_src_root argv) (arg_file_glob argv)"
  show ?thesis
  proof (cases "?funcs = []")
    case True
    with a assms show ?thesis by (auto simp: main_no_functions)
  next
    case ne: False
    obtain depths dm where m: "measure_all run (arg_src_root argv) ?funcs = (depths, dm)"
      by (cases "measure_all run (arg_src_root argv) ?funcs") auto
    from m have keys: "distinct (map fst dm)" by (rule measure_all_keys)
    from m have len: "length depths = length dm"
      by (rule measure_all_lengths) (rule list_functions_distinct)
    have top: "length (top20 dm) \<le> 20" "sorted_wrt top_before (top20 dm)"
      "top20 dm = take 20 (sort_key top_key dm)" "set (top20 dm) \<subseteq> set dm"
      "length (top20 dm) = min 20 (length depths)"
      using keys len by (simp_all add: top20_length top20_ordered top20_subset) (simp add: top20_def)
    show ?thesis
    proof (cases "depths = []")
      case True
      with m have "measure_all run (arg_src_root argv) ?funcs = ([], dm)" by simp
      from main_no_depths [OF a refl ne this] assms show ?thesis by auto
    next
      case d: False
      show ?thesis
      proof (cases "map_of dm (arg_target argv)")
        case None
        from main_target_missing [OF a refl ne m d None] assms
        have "top_entries msgs = top20 dm"
          by (auto simp: top_entries_print_top)
        with top m show ?thesis by auto
      next
        case (Some td)
        from d have "sort depths \<noteq> []" by (metis length_sort length_0_conv)
        then obtain s where "compute_stats (sort depths) td = Inr s"
          using compute_stats_total by blast
        from main_success [OF a refl ne m d Some this] assms
        have "top_entries msgs = top20 dm"
          by (auto simp: top_entries_append top_entries_print_top top_entries_print_summary)
        with top m show ?thesis by auto
      qed
    qed
  qed
qed

text \<open>
  Claim C8 on the run of the example shell for the unmeasurable target \<^verbatim>\<open>h\<close>: two functions
  were measured and both are listed, the deeper first.
\<close>
theorem printed_top20_witness:
  "main demo_shell [str ''prog'', str ''h'']
     = Inr ([TargetMissing (str ''h''), FallbackHeader,
             TopEntry 2 (str ''f''), TopEntry 0 (str ''g'')], 4) \<and>
   top_entries [TargetMissing (str ''h''), FallbackHeader,
                TopEntry 2 (str ''f''), TopEntry 0 (str ''g'')]
     = [(str ''f'', 2), (str ''g'', 0)] \<and>
   sorted_wrt top_before [(str ''f'', 2), (str ''g'', 0)] \<and>
   length [(str ''f'', 2 :: nat), (str ''g'', 0)] \<le> 20"
proof -
  let ?msgs = "[TargetMissing (str ''h''), FallbackHeader,
                TopEntry 2 (str ''f''), TopEntry 0 (str ''g'')]"
  have e: "top_entries ?msgs = [(str ''f'', 2), (str ''g'', 0)]" by simp
  from printed_top20 [OF demo_main_h] e
  have "sorted_wrt top_before [(str ''f'', 2), (str ''g'', 0)]"
    and "length [(str ''f'', 2 :: nat), (str ''g'', 0)] \<le> 20"
    by simp_all
  with demo_main_h e show ?thesis by blast
qed

subsection \<open>The names the enumerator returns\<close>

lemma dropWhile_space_Nil: "dropWhile is_space l = [] \<longleftrightarrow> whitespace_only l"
  by (simp add: dropWhile_eq_Nil_conv whitespace_only_def list_all_iff)

lemma split_ws_blank: "whitespace_only l \<Longrightarrow> split_ws l = []"
  by (subst split_ws.simps) (simp add: Let_def whitespace_only_def list_all_iff)

lemma split_ws_token:
  "\<not> whitespace_only l \<Longrightarrow>
   split_ws l = first_token l # split_ws (dropWhile (\<lambda>c. \<not> is_space c) (dropWhile is_space l))"
  by (subst split_ws.simps) (simp add: Let_def first_token_def whitespace_only_def list_all_iff)

lemma collect_name_blank: "whitespace_only l \<Longrightarrow> collect_name l funcs = funcs"
  by (simp add: collect_name_def split_ws_blank)

lemma collect_name_token: "\<not> whitespace_only l \<Longrightarrow> collect_name l funcs = funcs @ [first_token l]"
  by (simp add: collect_name_def split_ws_token)

lemma fold_collect_name:
  "fold collect_name ls acc = acc @ map first_token (filter (\<lambda>l. \<not> whitespace_only l) ls)"
proof (induction ls arbitrary: acc)
  case Nil
  then show ?case by simp
next
  case (Cons l ls)
  then show ?case
    by (cases "whitespace_only l") (simp_all add: collect_name_blank collect_name_token)
qed

lemma list_functions_no_files: "discover_files run r g = [] \<Longrightarrow> list_functions run r g = []"
  by (simp add: list_functions_def)

lemma list_functions_names:
  assumes "discover_files run r g \<noteq> []"
  shows "list_functions run r g =
           sort (remdups (map first_token
             (filter (\<lambda>l. \<not> whitespace_only l)
                (splitlines (run (Ctags (discover_files run r g)))))))"
  using assms by (simp add: list_functions_def Let_def fold_collect_name)

text \<open>
  Claim C9. Whatever the tools print, the enumerator returns an ascending list without
  duplicates; when files were found, its names are the first white-space-delimited tokens
  of the lines of the symbol extractor's output that have a token (such a token is the
  head of what \<^verbatim>\<open>split\<close> returns, and a line without one is dropped); and it returns the
  empty list when no file is found and when no line of the output has a token.
\<close>
theorem list_functions_sorted_distinct_first_tokens:
  "sorted (list_functions run r g) \<and> distinct (list_functions run r g) \<and>
   (discover_files run r g \<noteq> [] \<longrightarrow>
      set (list_functions run r g)
        = first_token ` {l \<in> set (splitlines (run (Ctags (discover_files run r g)))).
                          \<not> whitespace_only l}) \<and>
   (\<forall>l. \<not> whitespace_only l \<longrightarrow> split_ws l \<noteq> [] \<and> hd (split_ws l) = first_token l) \<and>
   (\<forall>l. whitespace_only l \<longrightarrow> split_ws l = []) \<and>
   (discover_files run r g = [] \<longrightarrow> list_functions run r g = []) \<and>
   ((\<forall>l\<in>set (splitlines (run (Ctags (discover_files run r g)))). whitespace_only l)
      \<longrightarrow> list_functions run r g = [])"
proof (intro conjI impI allI)
  show "sorted (list_functions run r g)" by (rule list_functions_sorted)
  show "distinct (list_functions run r g)" by (rule list_functions_distinct)
next
  assume "discover_files run r g \<noteq> []"
  then show "set (list_functions run r g)
        = first_token ` {l \<in> set (splitlines (run (Ctags (discover_files run r g)))).
                          \<not> whitespace_only l}"
    by (simp add: list_functions_names)
next
  fix l assume "\<not> whitespace_only l"
  then show "split_ws l \<noteq> []" and "hd (split_ws l) = first_token l"
    by (simp_all add: split_ws_token)
next
  fix l assume "whitespace_only l"
  then show "split_ws l = []" by (rule split_ws_blank)
next
  assume "discover_files run r g = []"
  then show "list_functions run r g = []" by (rule list_functions_no_files)
next
  assume blank: "\<forall>l\<in>set (splitlines (run (Ctags (discover_files run r g)))). whitespace_only l"
  show "list_functions run r g = []"
  proof (cases "discover_files run r g = []")
    case True
    then show ?thesis by (rule list_functions_no_files)
  next
    case False
    from blank
    have "filter (\<lambda>l. \<not> whitespace_only l) (splitlines (run (Ctags (discover_files run r g)))) = []"
      by (simp add: filter_empty_conv)
    with False show ?thesis
      by (simp add: list_functions_names)
  qed
qed

lemma demo_files: "discover_files demo_shell r g = [str ''a.c'']"
  by (simp add: discover_files_def demo_shell_def string_eval)

lemma silent_files: "discover_files silent_shell r g = []"
  by (simp add: discover_files_def silent_shell_def strip_def splitlines_Nil)

text \<open>
  Claim C9 on the example shell, where the symbol extractor lists \<^verbatim>\<open>g\<close> twice, and on the
  shell that finds no file.
\<close>
theorem list_functions_sorted_distinct_first_tokens_witness:
  "discover_files demo_shell (str ''.'') default_glob = [str ''a.c''] \<and>
   splitlines (demo_shell (Ctags [str ''a.c''])) = [str ''g 1'', str ''f 2'', str ''g 3'', str ''h 4''] \<and>
   list_functions demo_shell (str ''.'') default_glob = [str ''f'', str ''g'', str ''h''] \<and>
   set [str ''f'', str ''g'', str ''h'']
     = first_token ` {l \<in> set [str ''g 1'', str ''f 2'', str ''g 3'', str ''h 4'']. \<not> whitespace_only l} \<and>
   discover_files silent_shell (str ''.'') default_glob = [] \<and>
   list_functions silent_shell (str ''.'') default_glob = []"
proof -
  let ?r = "str ''.''"
  have files: "discover_files demo_shell ?r default_glob = [str ''a.c'']"
    by (rule demo_files)
  have ls: "splitlines (demo_shell (Ctags [str ''a.c'']))
              = [str ''g 1'', str ''f 2'', str ''g 3'', str ''h 4'']"
    by (simp add: demo_shell_def string_eval)
  have names: "list_functions demo_shell ?r default_glob = [str ''f'', str ''g'', str ''h'']"
    by (rule demo_functions)
  note d = list_functions_sorted_distinct_first_tokens [of demo_shell ?r default_glob]
  note s = list_functions_sorted_distinct_first_tokens [of silent_shell ?r default_glob]
  from files have "discover_files demo_shell ?r default_glob \<noteq> []" by simp
  with d have "set (list_functions demo_shell ?r default_glob)
        = first_token ` {l \<in> set (splitlines (demo_shell (Ctags (discover_files demo_shell ?r default_glob)))).
                          \<not> whitespace_only l}"
    by blast
  then have tok: "set [str ''f'', str ''g'', str ''h'']
     = first_token ` {l \<in> set [str ''g 1'', str ''f 2'', str ''g 3'', str ''h 4'']. \<not> whitespace_only l}"
    unfolding files ls names .
  have sf: "discover_files silent_shell ?r default_glob = []" by (rule silent_files)
  with s have "list_functions silent_shell ?r default_glob = []" by blast
  with files ls names tok sf show ?thesis by blast
qed

end
